theory Spec2Isabelle
  imports Complex_Main "HOL-Library.Multiset" "HOL-Library.Product_Lexorder"
begin

section \<open>Numbers\<close>

text \<open>
  A JavaScript number is modelled as a real number, or one of the three special values
  the arithmetic of the program can produce: a division by zero gives \<open>NaN\<close> or an
  infinity, never an exception. The features of the embedder are quotients of small
  counts, and are kept as the exact quotients.
\<close>

datatype jsnum = Num real | PosInfinity | NegInfinity | NaN

text \<open>The operator \<^verbatim>\<open>/\<close>.\<close>

fun js_div :: "jsnum \<Rightarrow> jsnum \<Rightarrow> jsnum" where
  "js_div NaN _ = NaN"
| "js_div _ NaN = NaN"
| "js_div (Num x) (Num y) =
     (if y = 0 then (if x = 0 then NaN else if 0 < x then PosInfinity else NegInfinity)
      else Num (x / y))"
| "js_div (Num x) PosInfinity = Num 0"
| "js_div (Num x) NegInfinity = Num 0"
| "js_div PosInfinity (Num y) = (if 0 \<le> y then PosInfinity else NegInfinity)"
| "js_div NegInfinity (Num y) = (if 0 \<le> y then NegInfinity else PosInfinity)"
| "js_div _ _ = NaN"

text \<open>\<^verbatim>\<open>x || 0\<close> on a number: the falsy numbers are \<open>0\<close> and \<open>NaN\<close>.\<close>

fun or_zero :: "jsnum \<Rightarrow> jsnum" where
  "or_zero NaN = Num 0"
| "or_zero (Num x) = (if x = 0 then Num 0 else Num x)"
| "or_zero v = v"

text \<open>\<^verbatim>\<open>Math.min(a, b)\<close>: \<open>NaN\<close> if either argument is.\<close>

fun js_min :: "jsnum \<Rightarrow> jsnum \<Rightarrow> jsnum" where
  "js_min NaN _ = NaN"
| "js_min _ NaN = NaN"
| "js_min NegInfinity _ = NegInfinity"
| "js_min _ NegInfinity = NegInfinity"
| "js_min PosInfinity b = b"
| "js_min a PosInfinity = a"
| "js_min (Num x) (Num y) = Num (min x y)"

fun is_finite :: "jsnum \<Rightarrow> bool" where
  "is_finite (Num x) = True"
| "is_finite v = False"

definition of_count :: "nat \<Rightarrow> jsnum" where
  "of_count n = Num (real n)"

section \<open>Strings\<close>

text \<open>
  A text is a string of code units below 256 (Latin-1), one \<^typ>\<open>char\<close> each; its
  \<^verbatim>\<open>length\<close> is the length of the list.
\<close>

definition code_unit :: "char \<Rightarrow> nat" where
  "code_unit c = of_char c"

text \<open>\<^verbatim>\<open>toLowerCase\<close>: the letters A-Z and the Latin-1 capitals (all of 192..222 but the
  multiplication sign 215) move up by 32; every other code unit below 256 stays.\<close>

definition lower_char :: "char \<Rightarrow> char" where
  "lower_char c =
     (let n = code_unit c
      in if (65 \<le> n \<and> n \<le> 90) \<or> (192 \<le> n \<and> n \<le> 222 \<and> n \<noteq> 215)
         then char_of (n + 32) else c)"

definition toLowerCase :: "string \<Rightarrow> string" where
  "toLowerCase s = map lower_char s"

text \<open>The character classes of the regular expressions.\<close>

definition is_space :: "char \<Rightarrow> bool" where
  "is_space c = (code_unit c \<in> {9, 10, 11, 12, 13, 32, 160})"

definition is_vowel :: "char \<Rightarrow> bool" where
  "is_vowel c = (c \<in> set ''aeiou'')"

definition is_consonant :: "char \<Rightarrow> bool" where
  "is_consonant c = (c \<in> set ''bcdfghjklmnpqrstvwxyz'')"

definition is_digit :: "char \<Rightarrow> bool" where
  "is_digit c = (48 \<le> code_unit c \<and> code_unit c \<le> 57)"

definition is_terminal_punct :: "char \<Rightarrow> bool" where
  "is_terminal_punct c = (c \<in> set ''.!?'')"

definition is_upper_AZ :: "char \<Rightarrow> bool" where
  "is_upper_AZ c = (65 \<le> code_unit c \<and> code_unit c \<le> 90)"

text \<open>\<^verbatim>\<open>(s.match(/[...]/g) || []).length\<close>: the number of code units in the class.\<close>

definition match_count :: "(char \<Rightarrow> bool) \<Rightarrow> string \<Rightarrow> nat" where
  "match_count p s = length (filter p s)"

text \<open>
  \<^verbatim>\<open>s.split(/\s+/)\<close>: every maximal run of white space is one separator, and the pieces
  between separators are returned, the empty piece before a leading run and after a
  trailing run included. The empty string gives one empty piece.
\<close>

function split_from :: "string \<Rightarrow> string \<Rightarrow> string list" where
  "split_from cur [] = [cur]"
| "split_from cur (c # cs) =
     (if is_space c then cur # split_from [] (dropWhile is_space cs)
      else split_from (cur @ [c]) cs)"
  by pat_completeness auto
termination
  by (relation "measure (\<lambda>(cur, s). length s)")
     (auto simp: le_imp_less_Suc length_dropWhile_le)

definition split_whitespace :: "string \<Rightarrow> string list" where
  "split_whitespace s = split_from [] s"

definition includes_char :: "string \<Rightarrow> char \<Rightarrow> bool" where
  "includes_char s c = (c \<in> set s)"

section \<open>The embedder\<close>

definition generateEmbedding :: "string \<Rightarrow> jsnum list" where
  "generateEmbedding text =
     (let normalized = toLowerCase text;
          words = split_whitespace normalized
      in [ js_div (of_count (length words)) (Num 10),
           js_div (of_count (length normalized)) (Num 50),
           or_zero (js_div (of_count (match_count is_vowel normalized))
                           (of_count (length normalized))),
           or_zero (js_div (of_count (match_count is_consonant normalized))
                           (of_count (length normalized))),
           or_zero (js_div (of_count (match_count is_digit normalized))
                           (of_count (length normalized))),
           or_zero (js_div (of_count (match_count is_terminal_punct normalized))
                           (of_count (length words))),
           js_min (if length words > 0
                   then js_div (js_div (of_count (foldl (\<lambda>sum w. sum + length w) 0 words))
                                       (of_count (length words)))
                               (Num 10)
                   else Num 0)
                  (Num 1),
           or_zero (js_div (of_count (match_count is_upper_AZ normalized))
                           (of_count (length text))),
           (if includes_char text (CHR ''?'') then Num 1 else Num 0),
           (if includes_char text (CHR ''!'') then Num 1 else Num 0) ])"

section \<open>Double precision\<close>

text \<open>
  The metric library and the searches add, multiply and compare the numbers they compute,
  so there every operation gives a double: the exact result, rounded to the nearest
  number with a significand of 53 bits and an exponent between -1074 and 971, to the
  even significand when two are as near, and to an infinity from \<open>2^1024\<close> on. A result
  below half of the smallest double is 0. The two zeros of a double are one number here.
\<close>

definition double_exponent :: "real \<Rightarrow> int" where
  "double_exponent x = max (\<lfloor>log 2 \<bar>x\<bar>\<rfloor> - 52) (- 1074)"

definition round_half_even :: "real \<Rightarrow> int" where
  "round_half_even y =
     (let f = \<lfloor>y\<rfloor>
      in if y - of_int f < 1 / 2 then f
         else if 1 / 2 < y - of_int f then f + 1
         else if even f then f else f + 1)"

definition round_double :: "real \<Rightarrow> jsnum" where
  "round_double x =
     (if x = 0 then Num 0
      else (let e = double_exponent x;
                v = of_int (round_half_even (x / 2 powr of_int e)) * 2 powr of_int e
            in if 2 powr 1024 \<le> \<bar>v\<bar> then (if 0 < x then PosInfinity else NegInfinity)
               else Num v))"

fun round_num :: "jsnum \<Rightarrow> jsnum" where
  "round_num (Num x) = round_double x"
| "round_num v = v"

text \<open>The exact results of \<^verbatim>\<open>-\<close> (one argument), \<^verbatim>\<open>+\<close>, \<^verbatim>\<open>*\<close> and \<^verbatim>\<open>Math.sqrt\<close> on the
  extended numbers; the exact quotient is \<open>js_div\<close>.\<close>

fun js_neg :: "jsnum \<Rightarrow> jsnum" where
  "js_neg (Num x) = Num (- x)"
| "js_neg PosInfinity = NegInfinity"
| "js_neg NegInfinity = PosInfinity"
| "js_neg NaN = NaN"

fun js_add :: "jsnum \<Rightarrow> jsnum \<Rightarrow> jsnum" where
  "js_add NaN _ = NaN"
| "js_add _ NaN = NaN"
| "js_add (Num x) (Num y) = Num (x + y)"
| "js_add PosInfinity NegInfinity = NaN"
| "js_add NegInfinity PosInfinity = NaN"
| "js_add PosInfinity _ = PosInfinity"
| "js_add _ PosInfinity = PosInfinity"
| "js_add NegInfinity _ = NegInfinity"
| "js_add _ NegInfinity = NegInfinity"

fun js_mul :: "jsnum \<Rightarrow> jsnum \<Rightarrow> jsnum" where
  "js_mul NaN _ = NaN"
| "js_mul _ NaN = NaN"
| "js_mul (Num x) (Num y) = Num (x * y)"
| "js_mul (Num x) PosInfinity =
     (if x = 0 then NaN else if 0 < x then PosInfinity else NegInfinity)"
| "js_mul (Num x) NegInfinity =
     (if x = 0 then NaN else if 0 < x then NegInfinity else PosInfinity)"
| "js_mul PosInfinity (Num y) =
     (if y = 0 then NaN else if 0 < y then PosInfinity else NegInfinity)"
| "js_mul NegInfinity (Num y) =
     (if y = 0 then NaN else if 0 < y then NegInfinity else PosInfinity)"
| "js_mul PosInfinity PosInfinity = PosInfinity"
| "js_mul NegInfinity NegInfinity = PosInfinity"
| "js_mul PosInfinity NegInfinity = NegInfinity"
| "js_mul NegInfinity PosInfinity = NegInfinity"

fun js_sqrt :: "jsnum \<Rightarrow> jsnum" where
  "js_sqrt (Num x) = (if x < 0 then NaN else Num (sqrt x))"
| "js_sqrt PosInfinity = PosInfinity"
| "js_sqrt NegInfinity = NaN"
| "js_sqrt NaN = NaN"

text \<open>The operators on doubles. \<^verbatim>\<open>Math.pow(x, 2)\<close> is taken as the product of \<open>x\<close> with
  itself.\<close>

definition add_double :: "jsnum \<Rightarrow> jsnum \<Rightarrow> jsnum" where
  "add_double a b = round_num (js_add a b)"

definition sub_double :: "jsnum \<Rightarrow> jsnum \<Rightarrow> jsnum" where
  "sub_double a b = round_num (js_add a (js_neg b))"

definition mul_double :: "jsnum \<Rightarrow> jsnum \<Rightarrow> jsnum" where
  "mul_double a b = round_num (js_mul a b)"

definition div_double :: "jsnum \<Rightarrow> jsnum \<Rightarrow> jsnum" where
  "div_double a b = round_num (js_div a b)"

definition sqrt_double :: "jsnum \<Rightarrow> jsnum" where
  "sqrt_double a = round_num (js_sqrt a)"

definition pow_2 :: "jsnum \<Rightarrow> jsnum" where
  "pow_2 a = mul_double a a"

text \<open>\<^verbatim>\<open>a <= b\<close> and \<^verbatim>\<open>a >= b\<close>: false when either side is \<open>NaN\<close>.\<close>

fun js_le :: "jsnum \<Rightarrow> jsnum \<Rightarrow> bool" where
  "js_le NaN _ = False"
| "js_le _ NaN = False"
| "js_le (Num x) (Num y) = (x \<le> y)"
| "js_le NegInfinity _ = True"
| "js_le _ PosInfinity = True"
| "js_le _ _ = False"

definition js_ge :: "jsnum \<Rightarrow> jsnum \<Rightarrow> bool" where
  "js_ge a b = js_le b a"

section \<open>The metric library\<close>

text \<open>
  The components of a vector are finite numbers. Both metrics throw
  \<^verbatim>\<open>Error('Vectors must have the same dimensions')\<close>, here \<open>DimensionMismatch\<close>, before
  they read a component. \<open>TypeError\<close> is what the runtime throws when a value that is not
  an array or an object is used as one; it occurs only in the heap model below.
\<close>

datatype error = DimensionMismatch | TypeError

function cosine_loop ::
  "real list \<Rightarrow> real list \<Rightarrow> nat \<Rightarrow> jsnum \<times> jsnum \<times> jsnum \<Rightarrow> jsnum \<times> jsnum \<times> jsnum" where
  "cosine_loop vecA vecB i (dotProduct, magnitudeA, magnitudeB) =
     (if i < length vecA
      then cosine_loop vecA vecB (i + 1)
             (add_double dotProduct (mul_double (Num (vecA ! i)) (Num (vecB ! i))),
              add_double magnitudeA (mul_double (Num (vecA ! i)) (Num (vecA ! i))),
              add_double magnitudeB (mul_double (Num (vecB ! i)) (Num (vecB ! i))))
      else (dotProduct, magnitudeA, magnitudeB))"
  by pat_completeness auto
termination
  by (relation "measure (\<lambda>(vecA, vecB, i, acc). length vecA - i)") auto

declare cosine_loop.simps [simp del]

definition cosineSimilarity :: "real list \<Rightarrow> real list \<Rightarrow> error + jsnum" where
  "cosineSimilarity vecA vecB =
     (if length vecA \<noteq> length vecB then Inl DimensionMismatch
      else (case cosine_loop vecA vecB 0 (Num 0, Num 0, Num 0) of
              (dotProduct, sumA, sumB) \<Rightarrow>
                (let magnitudeA = sqrt_double sumA; magnitudeB = sqrt_double sumB
                 in if magnitudeA = Num 0 \<or> magnitudeB = Num 0 then Inr (Num 0)
                    else Inr (div_double dotProduct (mul_double magnitudeA magnitudeB)))))"

function euclidean_loop :: "real list \<Rightarrow> real list \<Rightarrow> nat \<Rightarrow> jsnum \<Rightarrow> jsnum" where
  "euclidean_loop vecA vecB i sum_acc =
     (if i < length vecA
      then euclidean_loop vecA vecB (i + 1)
             (add_double sum_acc (pow_2 (sub_double (Num (vecA ! i)) (Num (vecB ! i)))))
      else sum_acc)"
  by pat_completeness auto
termination
  by (relation "measure (\<lambda>(vecA, vecB, i, sum_acc). length vecA - i)") auto

declare euclidean_loop.simps [simp del]

definition euclideanDistance :: "real list \<Rightarrow> real list \<Rightarrow> error + jsnum" where
  "euclideanDistance vecA vecB =
     (if length vecA \<noteq> length vecB then Inl DimensionMismatch
      else Inr (sqrt_double (euclidean_loop vecA vecB 0 (Num 0))))"

section \<open>The vector store\<close>

text \<open>
  The metadata is opaque to the store, so its type is a parameter. The time stamp is read
  from the clock in the source; here the caller passes it. Ids are counted in the natural
  numbers.
\<close>

record 'm document =
  doc_id :: nat
  doc_text :: string
  embedding :: "real list"
  metadata :: 'm
  timestamp :: string

record 'm vector_store =
  documents :: "'m document list"
  nextId :: nat

definition new_store :: "'m vector_store" where
  "new_store = \<lparr>documents = [], nextId = 1\<rparr>"

definition addDocument ::
  "'m vector_store \<Rightarrow> string \<Rightarrow> real list \<Rightarrow> 'm \<Rightarrow> string \<Rightarrow> 'm document \<times> 'm vector_store" where
  "addDocument s text emb meta now =
     (let document = \<lparr>doc_id = nextId s, doc_text = text, embedding = emb,
                       metadata = meta, timestamp = now\<rparr>
      in (document, \<lparr>documents = documents s @ [document], nextId = nextId s + 1\<rparr>))"

text \<open>\<^verbatim>\<open>findIndex\<close> gives the first position that satisfies the test, \<open>None\<close> for -1.\<close>

fun findIndex :: "('a \<Rightarrow> bool) \<Rightarrow> 'a list \<Rightarrow> nat option" where
  "findIndex p [] = None"
| "findIndex p (x # xs) = (if p x then Some 0 else map_option Suc (findIndex p xs))"

definition deleteDocument :: "'m vector_store \<Rightarrow> nat \<Rightarrow> bool \<times> 'm vector_store" where
  "deleteDocument s i =
     (case findIndex (\<lambda>doc. doc_id doc = i) (documents s) of
        Some index \<Rightarrow>
          (True, s\<lparr>documents := take index (documents s) @ drop (index + 1) (documents s)\<rparr>)
      | None \<Rightarrow> (False, s))"

definition clear :: "'m vector_store \<Rightarrow> 'm vector_store" where
  "clear s = \<lparr>documents = [], nextId = 1\<rparr>"

section \<open>Retrieval\<close>

text \<open>A search result is a copy of the record with one more field.\<close>

record 'm search_result = "'m document" +
  score :: jsnum

record 'm distance_result = "'m document" +
  distance :: jsnum

definition with_score :: "'m document \<Rightarrow> jsnum \<Rightarrow> 'm search_result" where
  "with_score doc similarity =
     \<lparr>doc_id = doc_id doc, doc_text = doc_text doc, embedding = embedding doc,
      metadata = metadata doc, timestamp = timestamp doc, score = similarity\<rparr>"

definition with_distance :: "'m document \<Rightarrow> jsnum \<Rightarrow> 'm distance_result" where
  "with_distance doc dst =
     \<lparr>doc_id = doc_id doc, doc_text = doc_text doc, embedding = embedding doc,
      metadata = metadata doc, timestamp = timestamp doc, distance = dst\<rparr>"

text \<open>\<^verbatim>\<open>Array.prototype.map\<close> with a callback that may throw: the elements are visited in
  order and the first exception ends the call.\<close>

fun map_throwing :: "('a \<Rightarrow> error + 'b) \<Rightarrow> 'a list \<Rightarrow> error + 'b list" where
  "map_throwing f [] = Inr []"
| "map_throwing f (x # xs) =
     (case f x of
        Inl e \<Rightarrow> Inl e
      | Inr y \<Rightarrow> (case map_throwing f xs of Inl e \<Rightarrow> Inl e | Inr ys \<Rightarrow> Inr (y # ys)))"

text \<open>
  \<^verbatim>\<open>Array.prototype.sort\<close> with a comparator is a stable sort: \<open>a\<close> stays before \<open>b\<close>
  unless the comparator is positive on \<open>(a, b)\<close>; a comparator that returns \<open>NaN\<close>
  counts as returning 0. It is written as an insertion sort.
\<close>

fun positive :: "jsnum \<Rightarrow> bool" where
  "positive (Num x) = (0 < x)"
| "positive PosInfinity = True"
| "positive NegInfinity = False"
| "positive NaN = False"

fun insert_by :: "('a \<Rightarrow> 'a \<Rightarrow> jsnum) \<Rightarrow> 'a \<Rightarrow> 'a list \<Rightarrow> 'a list" where
  "insert_by cmp x [] = [x]"
| "insert_by cmp x (y # ys) =
     (if positive (cmp x y) then y # insert_by cmp x ys else x # y # ys)"

definition js_sort :: "('a \<Rightarrow> 'a \<Rightarrow> jsnum) \<Rightarrow> 'a list \<Rightarrow> 'a list" where
  "js_sort cmp xs = foldr (insert_by cmp) xs []"

text \<open>\<^verbatim>\<open>xs.slice(0, k)\<close> for an integer \<open>k\<close>: the first \<open>k\<close> elements, and for a negative
  \<open>k\<close> all but the last \<open>-k\<close>.\<close>

definition slice_to :: "'a list \<Rightarrow> int \<Rightarrow> 'a list" where
  "slice_to xs k = (if k < 0 then take (nat (int (length xs) + k)) xs else take (nat k) xs)"

text \<open>
  The arguments that the source gives a default are passed by the caller: 5 for \<open>topK\<close>,
  0 for \<open>threshold\<close> and \<^verbatim>\<open>Infinity\<close> for \<open>maxDistance\<close>.
\<close>

definition search ::
  "'m vector_store \<Rightarrow> real list \<Rightarrow> int \<Rightarrow> jsnum \<Rightarrow> error + 'm search_result list" where
  "search s queryEmbedding topK threshold =
     (case map_throwing
             (\<lambda>doc. case cosineSimilarity queryEmbedding (embedding doc) of
                      Inl e \<Rightarrow> Inl e
                    | Inr similarity \<Rightarrow> Inr (with_score doc similarity))
             (documents s) of
        Inl e \<Rightarrow> Inl e
      | Inr results \<Rightarrow>
          Inr (slice_to
                 (js_sort (\<lambda>a b. sub_double (score b) (score a))
                    (filter (\<lambda>result. js_ge (score result) threshold) results))
                 topK))"

definition searchByDistance ::
  "'m vector_store \<Rightarrow> real list \<Rightarrow> int \<Rightarrow> jsnum \<Rightarrow> error + 'm distance_result list" where
  "searchByDistance s queryEmbedding topK maxDistance =
     (case map_throwing
             (\<lambda>doc. case euclideanDistance queryEmbedding (embedding doc) of
                      Inl e \<Rightarrow> Inl e
                    | Inr dst \<Rightarrow> Inr (with_distance doc dst))
             (documents s) of
        Inl e \<Rightarrow> Inl e
      | Inr results \<Rightarrow>
          Inr (slice_to
                 (js_sort (\<lambda>a b. sub_double (distance a) (distance b))
                    (filter (\<lambda>result. js_le (distance result) maxDistance) results))
                 topK))"

section \<open>Chunking\<close>

record text_chunk =
  chunk_id :: nat
  chunk :: string

text \<open>\<^verbatim>\<open>text.slice(b, e)\<close> for indices that are not negative.\<close>

definition slice :: "'a list \<Rightarrow> nat \<Rightarrow> nat \<Rightarrow> 'a list" where
  "slice s b e = take (e - b) (drop b s)"

text \<open>The loop does not end when the step is 0 and the text is not empty.\<close>

partial_function (option) chunk_loop ::
  "string \<Rightarrow> nat \<Rightarrow> nat \<Rightarrow> text_chunk list \<Rightarrow> text_chunk list option" where
  "chunk_loop text charactersPerChunk i chunkArray =
     (if i < length text
      then chunk_loop text charactersPerChunk (i + charactersPerChunk)
             (chunkArray @ [\<lparr>chunk_id = length chunkArray + 1,
                             chunk = slice text i (i + charactersPerChunk)\<rparr>])
      else Some chunkArray)"

declare chunk_loop.simps [code]

definition chunkText :: "string \<Rightarrow> nat \<Rightarrow> text_chunk list option" where
  "chunkText text charactersPerChunk = chunk_loop text charactersPerChunk 0 []"

section \<open>Notions of the specification\<close>

text \<open>
  The order of the numbers, as the specification means it when it says that a score
  reaches a threshold or that a list is in ascending order. \<open>NaN\<close> is neither below nor
  above any number.
\<close>

fun jsnum_less :: "jsnum \<Rightarrow> jsnum \<Rightarrow> bool" where
  "jsnum_less (Num x) (Num y) = (x < y)"
| "jsnum_less (Num x) PosInfinity = True"
| "jsnum_less NegInfinity (Num y) = True"
| "jsnum_less NegInfinity PosInfinity = True"
| "jsnum_less _ _ = False"

definition at_least :: "jsnum \<Rightarrow> jsnum \<Rightarrow> bool" where
  "at_least v bound = (v \<noteq> NaN \<and> bound \<noteq> NaN \<and> \<not> jsnum_less v bound)"

definition at_most :: "jsnum \<Rightarrow> jsnum \<Rightarrow> bool" where
  "at_most v bound = (v \<noteq> NaN \<and> bound \<noteq> NaN \<and> \<not> jsnum_less bound v)"

text \<open>
  The cosine similarity of two vectors, as the specification defines it, in double
  precision: the dot product over the product of the magnitudes, and 0 when a magnitude
  is 0. Sums are taken from the left. The distance is the root of the sum of the squared
  differences.
\<close>

definition dot_product :: "real list \<Rightarrow> real list \<Rightarrow> jsnum" where
  "dot_product a b =
     foldl (\<lambda>s (x, y). add_double s (mul_double (Num x) (Num y))) (Num 0) (zip a b)"

definition magnitude :: "real list \<Rightarrow> jsnum" where
  "magnitude v =
     sqrt_double (foldl (\<lambda>s x. add_double s (mul_double (Num x) (Num x))) (Num 0) v)"

definition cosine :: "real list \<Rightarrow> real list \<Rightarrow> jsnum" where
  "cosine a b =
     (if magnitude a = Num 0 \<or> magnitude b = Num 0 then Num 0
      else div_double (dot_product a b) (mul_double (magnitude a) (magnitude b)))"

definition euclidean :: "real list \<Rightarrow> real list \<Rightarrow> jsnum" where
  "euclidean a b =
     sqrt_double
       (foldl (\<lambda>s (x, y). add_double s
                           (mul_double (sub_double (Num x) (Num y)) (sub_double (Num x) (Num y))))
          (Num 0) (zip a b))"







fun not_negative :: "jsnum \<Rightarrow> bool" where
  "not_negative (Num x) = (0 \<le> x)"
| "not_negative NegInfinity = False"
| "not_negative PosInfinity = True"
| "not_negative NaN = False"

text \<open>A history of a store: documents are added and deleted, in any order. Running a
  history gives the ids that the additions returned, in order, and the final store.\<close>

datatype 'm store_op = Add string "real list" 'm string | Delete nat

fun is_Add :: "'m store_op \<Rightarrow> bool" where
  "is_Add (Add t e m ts) = True"
| "is_Add (Delete i) = False"

fun run_ops :: "'m vector_store \<Rightarrow> 'm store_op list \<Rightarrow> nat list \<times> 'm vector_store" where
  "run_ops s [] = ([], s)"
| "run_ops s (Add t e m ts # ops) =
     (case addDocument s t e m ts of
        (document, s') \<Rightarrow> (case run_ops s' ops of (ids, s'') \<Rightarrow> (doc_id document # ids, s'')))"
| "run_ops s (Delete i # ops) = run_ops (snd (deleteDocument s i)) ops"

text \<open>A store for the examples: the second and third records have the same embedding.\<close>

definition demo_store :: "unit vector_store" where
  "demo_store =
     \<lparr>documents =
        [\<lparr>doc_id = 1, doc_text = ''north'', embedding = [0, 2], metadata = (), timestamp = ''t1''\<rparr>,
         \<lparr>doc_id = 2, doc_text = ''east'', embedding = [1, 0], metadata = (), timestamp = ''t2''\<rparr>,
         \<lparr>doc_id = 3, doc_text = ''east again'', embedding = [1, 0], metadata = (), timestamp = ''t3''\<rparr>],
      nextId = 4\<rparr>"

text \<open>Two stores on which the rounding shows: one record with the embedding \<open>[1, 1]\<close>;
  and a record so near to \<open>[0]\<close> that the square of its distance rounds to 0, before a
  record at \<open>[0]\<close>.\<close>

definition diagonal_store :: "unit vector_store" where
  "diagonal_store =
     \<lparr>documents =
        [\<lparr>doc_id = 1, doc_text = ''diagonal'', embedding = [1, 1], metadata = (), timestamp = ''t1''\<rparr>],
      nextId = 2\<rparr>"


section \<open>Search on an object heap\<close>

text \<open>
  Whether a search changes the store depends on which arrays and objects it writes to:
  \<^verbatim>\<open>map\<close>, \<^verbatim>\<open>filter\<close> and \<^verbatim>\<open>slice\<close> build new arrays, the object spread builds a new
  object, and \<^verbatim>\<open>sort\<close> reorders the array it is called on. So the two searches are
  written once more over a heap of cells. An address is an index into the heap, and a new
  cell is put at its end. A cell is the store object with its two fields, an array of
  references, or a record object: the five fields of a document and the fields
  \<^verbatim>\<open>score\<close> and \<^verbatim>\<open>distance\<close>, which an object may lack. The spread copies the
  references to the embedding and the metadata of a record; neither search writes to
  them, and they are kept as values in the cell of the record.
\<close>

type_synonym addr = nat

datatype 'm cell =
    StoreObject addr nat
  | ArrayObject "addr list"
  | RecordObject "'m document" "jsnum option" "jsnum option"

type_synonym 'm heap = "'m cell list"

definition lookup :: "'m heap \<Rightarrow> addr \<Rightarrow> 'm cell option" where
  "lookup h a = (if a < length h then Some (h ! a) else None)"

definition alloc :: "'m cell \<Rightarrow> 'm heap \<Rightarrow> addr \<times> 'm heap" where
  "alloc c h = (length h, h @ [c])"

text \<open>A step returns a value or throws, and leaves a heap; the next step runs only
  after a value.\<close>

definition and_then ::
  "(error + 'a) \<times> 'h \<Rightarrow> ('a \<Rightarrow> 'h \<Rightarrow> (error + 'b) \<times> 'h) \<Rightarrow> (error + 'b) \<times> 'h" where
  "and_then r f = (case r of (Inl e, h) \<Rightarrow> (Inl e, h) | (Inr x, h) \<Rightarrow> f x h)"

text \<open>The callback of \<^verbatim>\<open>map\<close> reads a record object and gives the object to create.\<close>

fun map_objects ::
  "('m document \<Rightarrow> jsnum option \<Rightarrow> jsnum option \<Rightarrow> error + 'm cell) \<Rightarrow> addr list \<Rightarrow> 'm heap
   \<Rightarrow> (error + addr list) \<times> 'm heap" where
  "map_objects f [] h = (Inr [], h)"
| "map_objects f (a # as) h =
     (case lookup h a of
        Some (RecordObject doc sc di) \<Rightarrow>
          (case f doc sc di of
             Inl e \<Rightarrow> (Inl e, h)
           | Inr obj \<Rightarrow>
               (case alloc obj h of
                  (r, h1) \<Rightarrow>
                    (case map_objects f as h1 of
                       (Inl e, h2) \<Rightarrow> (Inl e, h2)
                     | (Inr rs, h2) \<Rightarrow> (Inr (r # rs), h2))))
      | _ \<Rightarrow> (Inl TypeError, h))"

definition array_map ::
  "('m document \<Rightarrow> jsnum option \<Rightarrow> jsnum option \<Rightarrow> error + 'm cell) \<Rightarrow> addr \<Rightarrow> 'm heap
   \<Rightarrow> (error + addr) \<times> 'm heap" where
  "array_map f arr h =
     (case lookup h arr of
        Some (ArrayObject xs) \<Rightarrow>
          and_then (map_objects f xs h) (\<lambda>rs h1. case alloc (ArrayObject rs) h1 of (r, h2) \<Rightarrow> (Inr r, h2))
      | _ \<Rightarrow> (Inl TypeError, h))"

definition array_filter ::
  "('m heap \<Rightarrow> addr \<Rightarrow> bool) \<Rightarrow> addr \<Rightarrow> 'm heap \<Rightarrow> (error + addr) \<times> 'm heap" where
  "array_filter p arr h =
     (case lookup h arr of
        Some (ArrayObject xs) \<Rightarrow>
          (case alloc (ArrayObject (filter (p h) xs)) h of (r, h1) \<Rightarrow> (Inr r, h1))
      | _ \<Rightarrow> (Inl TypeError, h))"

text \<open>\<^verbatim>\<open>sort\<close> writes the sorted elements back into the array and returns that array.\<close>

definition array_sort ::
  "('m heap \<Rightarrow> addr \<Rightarrow> addr \<Rightarrow> jsnum) \<Rightarrow> addr \<Rightarrow> 'm heap \<Rightarrow> (error + addr) \<times> 'm heap" where
  "array_sort cmp arr h =
     (case lookup h arr of
        Some (ArrayObject xs) \<Rightarrow> (Inr arr, h[arr := ArrayObject (js_sort (cmp h) xs)])
      | _ \<Rightarrow> (Inl TypeError, h))"

definition array_slice :: "int \<Rightarrow> addr \<Rightarrow> 'm heap \<Rightarrow> (error + addr) \<times> 'm heap" where
  "array_slice k arr h =
     (case lookup h arr of
        Some (ArrayObject xs) \<Rightarrow> (case alloc (ArrayObject (slice_to xs k)) h of (r, h1) \<Rightarrow> (Inr r, h1))
      | _ \<Rightarrow> (Inl TypeError, h))"

text \<open>Reading the field \<^verbatim>\<open>score\<close> or \<^verbatim>\<open>distance\<close> of the object at an address;
  \<open>None\<close> is \<^verbatim>\<open>undefined\<close>.\<close>

definition score_at :: "'m heap \<Rightarrow> addr \<Rightarrow> jsnum option" where
  "score_at h a = (case lookup h a of Some (RecordObject doc sc di) \<Rightarrow> sc | _ \<Rightarrow> None)"

definition distance_at :: "'m heap \<Rightarrow> addr \<Rightarrow> jsnum option" where
  "distance_at h a = (case lookup h a of Some (RecordObject doc sc di) \<Rightarrow> di | _ \<Rightarrow> None)"

text \<open>A comparison with \<^verbatim>\<open>undefined\<close> is false, and a difference with
  \<^verbatim>\<open>undefined\<close> is \<open>NaN\<close>.\<close>

definition search_heap ::
  "addr \<Rightarrow> real list \<Rightarrow> int \<Rightarrow> jsnum \<Rightarrow> 'm heap \<Rightarrow> (error + addr) \<times> 'm heap" where
  "search_heap this queryEmbedding topK threshold h =
     (case lookup h this of
        Some (StoreObject docs n) \<Rightarrow>
          and_then
            (array_map
               (\<lambda>doc sc di. case cosineSimilarity queryEmbedding (embedding doc) of
                                Inl e \<Rightarrow> Inl e
                              | Inr similarity \<Rightarrow> Inr (RecordObject doc (Some similarity) di))
               docs h)
            (\<lambda>results h1.
               and_then
                 (array_filter
                    (\<lambda>h a. case score_at h a of Some sc \<Rightarrow> js_ge sc threshold | None \<Rightarrow> False)
                    results h1)
                 (\<lambda>filtered h2.
                    and_then
                      (array_sort
                         (\<lambda>h a b. case (score_at h b, score_at h a) of
                                     (Some sb, Some sa) \<Rightarrow> sub_double sb sa
                                   | _ \<Rightarrow> NaN)
                         filtered h2)
                      (\<lambda>sorted h3. array_slice topK sorted h3)))
      | _ \<Rightarrow> (Inl TypeError, h))"

definition searchByDistance_heap ::
  "addr \<Rightarrow> real list \<Rightarrow> int \<Rightarrow> jsnum \<Rightarrow> 'm heap \<Rightarrow> (error + addr) \<times> 'm heap" where
  "searchByDistance_heap this queryEmbedding topK maxDistance h =
     (case lookup h this of
        Some (StoreObject docs n) \<Rightarrow>
          and_then
            (array_map
               (\<lambda>doc sc di. case euclideanDistance queryEmbedding (embedding doc) of
                                Inl e \<Rightarrow> Inl e
                              | Inr dst \<Rightarrow> Inr (RecordObject doc sc (Some dst)))
               docs h)
            (\<lambda>results h1.
               and_then
                 (array_filter
                    (\<lambda>h a. case distance_at h a of Some di \<Rightarrow> js_le di maxDistance | None \<Rightarrow> False)
                    results h1)
                 (\<lambda>filtered h2.
                    and_then
                      (array_sort
                         (\<lambda>h a b. case (distance_at h a, distance_at h b) of
                                     (Some da, Some db) \<Rightarrow> sub_double da db
                                   | _ \<Rightarrow> NaN)
                         filtered h2)
                      (\<lambda>sorted h3. array_slice topK sorted h3)))
      | _ \<Rightarrow> (Inl TypeError, h))"

text \<open>What a store holds, read off the heap: its records in order, each with its
  optional \<^verbatim>\<open>score\<close> and \<^verbatim>\<open>distance\<close>, and its counter.\<close>

definition record_at ::
  "'m heap \<Rightarrow> addr \<Rightarrow> ('m document \<times> jsnum option \<times> jsnum option) option" where
  "record_at h a =
     (case lookup h a of Some (RecordObject doc sc di) \<Rightarrow> Some (doc, sc, di) | _ \<Rightarrow> None)"

definition store_view ::
  "'m heap \<Rightarrow> addr \<Rightarrow> (('m document \<times> jsnum option \<times> jsnum option) list \<times> nat) option" where
  "store_view h this =
     (case lookup h this of
        Some (StoreObject docs n) \<Rightarrow>
          (case lookup h docs of
             Some (ArrayObject xs) \<Rightarrow>
               (case those (map (record_at h) xs) of Some rs \<Rightarrow> Some (rs, n) | None \<Rightarrow> None)
           | _ \<Rightarrow> None)
      | _ \<Rightarrow> None)"

text \<open>The store of the examples, on a heap: the store object at address 0, its array
  at 1, the three records at 2, 3 and 4.\<close>

definition demo_heap :: "unit heap" where
  "demo_heap =
     [StoreObject 1 4,
      ArrayObject [2, 3, 4],
      RecordObject (documents demo_store ! 0) None None,
      RecordObject (documents demo_store ! 1) None None,
      RecordObject (documents demo_store ! 2) None None]"

text \<open>A heap is unchanged by a step when every cell it had is still there, with the
  same content.\<close>

definition unchanged :: "'m heap \<Rightarrow> 'm heap \<Rightarrow> bool" where
  "unchanged h h' = (take (length h) h' = h)"

text \<open>What a search returns, read off the heap it leaves: the results in the array at
  the returned address, or the exception.\<close>

definition result_at :: "'m heap \<Rightarrow> addr \<Rightarrow> 'm search_result option" where
  "result_at h a =
     (case lookup h a of
        Some (RecordObject doc (Some sc) di) \<Rightarrow> Some (with_score doc sc)
      | _ \<Rightarrow> None)"

definition results_at :: "'m heap \<Rightarrow> addr \<Rightarrow> 'm search_result list option" where
  "results_at h r =
     (case lookup h r of Some (ArrayObject xs) \<Rightarrow> those (map (result_at h) xs) | _ \<Rightarrow> None)"

definition distance_result_at :: "'m heap \<Rightarrow> addr \<Rightarrow> 'm distance_result option" where
  "distance_result_at h a =
     (case lookup h a of
        Some (RecordObject doc sc (Some di)) \<Rightarrow> Some (with_distance doc di)
      | _ \<Rightarrow> None)"

definition distances_at :: "'m heap \<Rightarrow> addr \<Rightarrow> 'm distance_result list option" where
  "distances_at h r =
     (case lookup h r of
        Some (ArrayObject xs) \<Rightarrow> those (map (distance_result_at h) xs)
      | _ \<Rightarrow> None)"

definition outcome ::
  "('m heap \<Rightarrow> addr \<Rightarrow> 'r list option) \<Rightarrow> (error + addr) \<times> 'm heap \<Rightarrow> error + 'r list" where
  "outcome rd res =
     (case res of
        (Inl e, h) \<Rightarrow> Inl e
      | (Inr r, h) \<Rightarrow> (case rd h r of Some rs \<Rightarrow> Inr rs | None \<Rightarrow> Inl TypeError))"

text \<open>A store whose second record has an embedding of another length than the first, and
  the same store on a heap.\<close>

definition mixed_store :: "unit vector_store" where
  "mixed_store =
     \<lparr>documents =
        [\<lparr>doc_id = 1, doc_text = ''ab'', embedding = [1, 0], metadata = (), timestamp = ''t1''\<rparr>,
         \<lparr>doc_id = 2, doc_text = ''c'', embedding = [1], metadata = (), timestamp = ''t2''\<rparr>,
         \<lparr>doc_id = 3, doc_text = ''d'', embedding = [7], metadata = (), timestamp = ''t3''\<rparr>],
      nextId = 4\<rparr>"

definition mixed_heap :: "unit heap" where
  "mixed_heap =
     [StoreObject 1 4,
      ArrayObject [2, 3, 4],
      RecordObject (documents mixed_store ! 0) None None,
      RecordObject (documents mixed_store ! 1) None None,
      RecordObject (documents mixed_store ! 2) None None]"

section \<open>The embedder: dimension and features\<close>

lemma lower_char_not_upper: "\<not> is_upper_AZ (lower_char c)"
proof -
  have "code_unit c < 256"
    unfolding code_unit_def by simp
  then show ?thesis
    unfolding is_upper_AZ_def lower_char_def Let_def code_unit_def
    by (auto simp: of_char_of)
qed

lemma no_upper_after_toLowerCase: "match_count is_upper_AZ (toLowerCase s) = 0"
  by (simp add: match_count_def toLowerCase_def lower_char_not_upper)

lemma or_zero_div_zero: "or_zero (js_div (of_count 0) (of_count n)) = Num 0"
  by (simp add: of_count_def)

lemma split_from_nonempty: "split_from cur s \<noteq> []"
  by (induction cur s rule: split_from.induct) auto

lemmas embedder_defs =
  generateEmbedding_def toLowerCase_def split_whitespace_def of_count_def match_count_def
  includes_char_def lower_char_def code_unit_def is_space_def is_vowel_def is_consonant_def
  is_digit_def is_terminal_punct_def is_upper_AZ_def

text \<open>
  C9. For every input string, the embedding has exactly 10 components.
\<close>

theorem generateEmbedding_dimension: "length (generateEmbedding s) = 10"
  by (simp add: generateEmbedding_def Let_def)

text \<open>
  C1. Component 8 is computed from the lowercased text, in which no letter A-Z is left:
  it is 0 for every input. For \<open>Hello\<close> the ratio of uppercase letters of the original
  text to its length is 1/5, and component 8 is 0.
\<close>

theorem generateEmbedding_uppercase_component:
  "generateEmbedding s ! 7 = Num 0
   \<and> generateEmbedding ''Hello'' ! 7 = Num 0
   \<and> js_div (of_count (match_count is_upper_AZ ''Hello'')) (of_count (length ''Hello''))
       = Num (1 / 5)"
proof (intro conjI)
  show g: "generateEmbedding s ! 7 = Num 0" for s
    by (simp add: generateEmbedding_def Let_def no_upper_after_toLowerCase or_zero_div_zero)
  show "generateEmbedding ''Hello'' ! 7 = Num 0"
    by (rule g)
  show "js_div (of_count (match_count is_upper_AZ ''Hello'')) (of_count (length ''Hello''))
        = Num (1 / 5)"
    by (simp add: of_count_def match_count_def is_upper_AZ_def code_unit_def)
qed

lemma list_all_finite: "list_all is_finite (generateEmbedding s)"
proof -
  have w: "length (split_whitespace (toLowerCase s)) \<noteq> 0"
    by (simp add: split_whitespace_def split_from_nonempty)
  have r: "is_finite (or_zero (js_div (of_count (match_count p t)) (of_count (length t))))" for p t
    by (cases "length t = 0") (simp_all add: of_count_def match_count_def)
  have d: "is_finite (js_div (of_count a) (Num 10))" "is_finite (js_div (of_count a) (Num 50))" for a
    by (simp_all add: of_count_def)
  have p: "is_finite (or_zero (js_div (of_count a) (of_count n)))" if "n \<noteq> 0" for a n
    using that by (simp add: of_count_def)
  have m: "is_finite (js_min (js_div (js_div (of_count a) (of_count n)) (Num 10)) (Num 1))"
    if "n \<noteq> 0" for a n
    using that by (simp add: of_count_def)
  show ?thesis
    using w by (simp add: generateEmbedding_def Let_def r d p m no_upper_after_toLowerCase or_zero_div_zero)
qed

text \<open>
  C2. Splitting never gives an empty list of words: the empty string has one word, the
  empty one, and a string of three spaces has two. Component 1 is then 1/10 and 1/5,
  not 0. No component of any embedding is \<open>NaN\<close> or infinite.
\<close>

theorem generateEmbedding_blank_input:
  "length (split_whitespace (toLowerCase s)) \<noteq> 0
   \<and> length (split_whitespace (toLowerCase [])) = 1
   \<and> length (split_whitespace (toLowerCase ''   '')) = 2
   \<and> generateEmbedding [] =
       [Num (1 / 10), Num 0, Num 0, Num 0, Num 0, Num 0, Num 0, Num 0, Num 0, Num 0]
   \<and> generateEmbedding ''   '' =
       [Num (1 / 5), Num (3 / 50), Num 0, Num 0, Num 0, Num 0, Num 0, Num 0, Num 0, Num 0]
   \<and> list_all is_finite (generateEmbedding s)"
proof (intro conjI)
  show "length (split_whitespace (toLowerCase s)) \<noteq> 0"
    by (simp add: split_whitespace_def split_from_nonempty)
  show "length (split_whitespace (toLowerCase [])) = 1"
    by (simp add: embedder_defs)
  show "length (split_whitespace (toLowerCase ''   '')) = 2"
    by (simp add: embedder_defs)
  show "generateEmbedding [] =
       [Num (1 / 10), Num 0, Num 0, Num 0, Num 0, Num 0, Num 0, Num 0, Num 0, Num 0]"
    by (simp add: embedder_defs)
  show "generateEmbedding ''   '' =
       [Num (1 / 5), Num (3 / 50), Num 0, Num 0, Num 0, Num 0, Num 0, Num 0, Num 0, Num 0]"
    by (simp add: embedder_defs)
  show "list_all is_finite (generateEmbedding s)"
    by (rule list_all_finite)
qed

section \<open>Chunking covers the text\<close>

lemma ceil_div_step:
  assumes "0 < (n::nat)" "i < L"
  shows "Suc ((L - (i + n) + n - 1) div n) = (L - i + n - 1) div n"
proof (cases "i + n \<le> L")
  case True
  have "L - i + n - 1 = (L - (i + n) + n - 1) + n"
    using True assms by arith
  then have "(L - i + n - 1) div n = (L - (i + n) + n - 1) div n + 1"
    using assms by (simp only: div_add_self2)
  then show ?thesis by simp
next
  case False
  have a: "L - (i + n) + n - 1 = n - 1"
    using False by arith
  have b: "L - i + n - 1 = (L - i - 1) + n"
    using assms by arith
  have c: "L - i - 1 < n"
    using False assms by arith
  have "(n - 1) div n = 0"
    using assms by (intro div_less) arith
  moreover have "(L - i + n - 1) div n = (L - i - 1) div n + 1"
    unfolding b using assms by (simp only: div_add_self2)
  moreover have "(L - i - 1) div n = 0"
    using c by (rule div_less)
  ultimately show ?thesis unfolding a by simp
qed

lemma ceiling_div_nat:
  assumes "0 < (n::nat)"
  shows "\<lceil>real L / real n\<rceil> = int ((L + n - 1) div n)"
proof -
  define q where "q = (L + n - 1) div n"
  have a: "n * q \<le> L + n - 1"
    by (simp add: q_def)
  have b: "L + n - 1 < n + n * q"
    unfolding q_def using assms by (rule dividend_less_times_div)
  from a assms have "n * q < L + n" by arith
  then have "real (n * q) < real (L + n)" by (simp only: of_nat_less_iff)
  then have a': "(real q - 1) * real n < real L"
    by (simp add: algebra_simps)
  from b assms have "L \<le> n * q" by arith
  then have "real L \<le> real (n * q)" by (simp only: of_nat_le_iff)
  then have b': "real L \<le> real q * real n"
    by (simp add: algebra_simps)
  have "real_of_int (int q) - 1 < real L / real n"
    using a' assms by (simp add: pos_less_divide_eq)
  moreover have "real L / real n \<le> real_of_int (int q)"
    using b' assms by (simp add: pos_divide_le_eq)
  ultimately have "\<lceil>real L / real n\<rceil> = int q"
    by (rule ceiling_unique)
  then show ?thesis by (simp add: q_def)
qed

lemma chunk_loop_correct:
  assumes "0 < n"
  shows "\<exists>cs. chunk_loop text n i acc = Some (acc @ cs)
           \<and> length cs = (length text - i + n - 1) div n
           \<and> map chunk_id cs = [length acc + 1 ..< length acc + 1 + length cs]
           \<and> concat (map chunk cs) = drop i text
           \<and> (\<forall>j. j + 1 < length cs \<longrightarrow> length (chunk (cs ! j)) = n)
           \<and> (\<forall>c\<in>set cs. 1 \<le> length (chunk c) \<and> length (chunk c) \<le> n)"
proof (induction "length text - i" arbitrary: i acc rule: less_induct)
  case less
  show ?case
  proof (cases "i < length text")
    case False
    then have "chunk_loop text n i acc = Some acc"
      by (subst chunk_loop.simps) simp
    moreover have "(length text - i + n - 1) div n = 0"
      using False assms by simp
    ultimately show ?thesis using False by (intro exI[of _ "[]"]) simp
  next
    case True
    define c where "c = \<lparr>chunk_id = length acc + 1, chunk = slice text i (i + n)\<rparr>"
    have step: "chunk_loop text n i acc = chunk_loop text n (i + n) (acc @ [c])"
      using True by (subst chunk_loop.simps) (simp add: c_def)
    have "length text - (i + n) < length text - i"
      using True assms by simp
    from less[OF this, of "acc @ [c]"] obtain cs where
      cs: "chunk_loop text n (i + n) (acc @ [c]) = Some ((acc @ [c]) @ cs)"
      and len: "length cs = (length text - (i + n) + n - 1) div n"
      and ids: "map chunk_id cs = [length (acc @ [c]) + 1 ..< length (acc @ [c]) + 1 + length cs]"
      and cat: "concat (map chunk cs) = drop (i + n) text"
      and full: "\<forall>j. j + 1 < length cs \<longrightarrow> length (chunk (cs ! j)) = n"
      and bnd: "\<forall>c\<in>set cs. 1 \<le> length (chunk c) \<and> length (chunk c) \<le> n"
      by blast
    have chunk_c: "chunk c = take n (drop i text)"
      by (simp add: c_def slice_def)
    have 1: "chunk_loop text n i acc = Some (acc @ (c # cs))"
      using step cs by simp
    have 2: "length (c # cs) = (length text - i + n - 1) div n"
      using len ceil_div_step[OF assms True] by simp
    have e1: "length (acc @ [c]) + 1 = Suc (length acc + 1)"
      by simp
    have e2: "length (acc @ [c]) + 1 + length cs = length acc + 1 + length (c # cs)"
      by simp
    have "[length acc + 1 ..< length acc + 1 + length (c # cs)] =
          (length acc + 1) # [Suc (length acc + 1) ..< length acc + 1 + length (c # cs)]"
      by (rule upt_conv_Cons) simp
    also have "\<dots> = chunk_id c # map chunk_id cs"
      unfolding ids e1 e2 by (simp add: c_def)
    finally have 3: "map chunk_id (c # cs) = [length acc + 1 ..< length acc + 1 + length (c # cs)]"
      by simp
    have "drop (i + n) text = drop n (drop i text)"
      by (simp add: add.commute)
    then have 4: "concat (map chunk (c # cs)) = drop i text"
      by (simp only: list.map concat.simps chunk_c cat append_take_drop_id)
    have 5: "\<forall>j. j + 1 < length (c # cs) \<longrightarrow> length (chunk ((c # cs) ! j)) = n"
    proof (intro allI impI)
      fix j assume j: "j + 1 < length (c # cs)"
      show "length (chunk ((c # cs) ! j)) = n"
      proof (cases j)
        case 0
        from j 0 have "0 < length cs" by simp
        then have "0 < (length text - (i + n) + n - 1) div n" using len by simp
        then have "n \<le> length text - (i + n) + n - 1"
          using assms by (simp add: div_greater_zero_iff)
        then have "i + n < length text" using assms by simp
        then show ?thesis using 0 chunk_c by simp
      next
        case (Suc k)
        then show ?thesis using j full by simp
      qed
    qed
    have "1 \<le> length (chunk c) \<and> length (chunk c) \<le> n"
      using chunk_c True assms by simp
    then have 6: "\<forall>c\<in>set (c # cs). 1 \<le> length (chunk c) \<and> length (chunk c) \<le> n"
      using bnd by simp
    show ?thesis by (intro exI[of _ "c # cs"] conjI 1 2 3 4 5 6)
  qed
qed

text \<open>
  C8. For a window size of at least 1 the loop ends, and \<open>chunkText\<close> returns
  \<open>ceil(L/n)\<close> chunks with the ids 1, 2, ... in order; their texts, concatenated in
  that order, are the input; every chunk but the last has exactly \<open>n\<close> characters, and
  no chunk is empty or longer than \<open>n\<close>.
\<close>

theorem chunkText_coverage:
  assumes "1 \<le> n"
  shows "\<exists>cs. chunkText text n = Some cs
           \<and> int (length cs) = \<lceil>real (length text) / real n\<rceil>
           \<and> map chunk_id cs = [1 ..< length cs + 1]
           \<and> concat (map chunk cs) = text
           \<and> (\<forall>j. j + 1 < length cs \<longrightarrow> length (chunk (cs ! j)) = n)
           \<and> (\<forall>c\<in>set cs. 1 \<le> length (chunk c) \<and> length (chunk c) \<le> n)"
proof -
  from assms have n: "0 < n" by simp
  from chunk_loop_correct[OF n, of "text" 0 "[]"] obtain cs where
    1: "chunk_loop text n 0 [] = Some ([] @ cs)"
    and 2: "length cs = (length text - 0 + n - 1) div n"
    and 3: "map chunk_id cs =
            [length ([]::text_chunk list) + 1 ..< length ([]::text_chunk list) + 1 + length cs]"
    and 4: "concat (map chunk cs) = drop 0 text"
    and 5: "\<forall>j. j + 1 < length cs \<longrightarrow> length (chunk (cs ! j)) = n"
    and 6: "\<forall>c\<in>set cs. 1 \<le> length (chunk c) \<and> length (chunk c) \<le> n"
    by blast
  have a: "chunkText text n = Some cs"
    using 1 by (simp add: chunkText_def)
  have b: "int (length cs) = \<lceil>real (length text) / real n\<rceil>"
    using 2 ceiling_div_nat[OF n, of "length text"] by simp
  have e1: "length ([]::text_chunk list) + 1 = 1"
    by simp
  have e2: "(1::nat) + length cs = length cs + 1"
    by simp
  have c: "map chunk_id cs = [1 ..< length cs + 1]"
    using 3 unfolding e1 e2 .
  have d: "concat (map chunk cs) = text"
    using 4 by simp
  show ?thesis by (intro exI[of _ cs] conjI a b c d 5 6)
qed

theorem chunkText_coverage_witness:
  "(1::nat) \<le> 3
   \<and> (\<exists>cs. chunkText ''abcdefg'' 3 = Some cs
           \<and> int (length cs) = \<lceil>real (length ''abcdefg'') / real (3::nat)\<rceil>
           \<and> map chunk_id cs = [1 ..< length cs + 1]
           \<and> concat (map chunk cs) = ''abcdefg''
           \<and> (\<forall>j. j + 1 < length cs \<longrightarrow> length (chunk (cs ! j)) = 3)
           \<and> (\<forall>c\<in>set cs. 1 \<le> length (chunk c) \<and> length (chunk c) \<le> 3))"
proof
  show h: "(1::nat) \<le> 3" by simp
  show "\<exists>cs. chunkText ''abcdefg'' 3 = Some cs
           \<and> int (length cs) = \<lceil>real (length ''abcdefg'') / real (3::nat)\<rceil>
           \<and> map chunk_id cs = [1 ..< length cs + 1]
           \<and> concat (map chunk cs) = ''abcdefg''
           \<and> (\<forall>j. j + 1 < length cs \<longrightarrow> length (chunk (cs ! j)) = 3)
           \<and> (\<forall>c\<in>set cs. 1 \<le> length (chunk c) \<and> length (chunk c) \<le> 3)"
    by (rule chunkText_coverage[OF h])
qed

section \<open>Rounding to a double\<close>


lemma round_half_even_nonneg: "0 \<le> y \<Longrightarrow> 0 \<le> round_half_even y"
proof -
  assume "0 \<le> y"
  then have "0 \<le> \<lfloor>y\<rfloor>" by (simp add: le_floor_iff)
  then show ?thesis by (auto simp: round_half_even_def Let_def)
qed


lemma round_half_even_of_int: "round_half_even (of_int k) = k"
  by (simp add: round_half_even_def)




lemma round_double_not_negative:
  assumes "0 \<le> x"
  shows "not_negative (round_double x)"
proof (cases "x = 0")
  case True
  then show ?thesis by (simp add: round_double_def)
next
  case False
  let ?e = "double_exponent x"
  have "0 \<le> x / 2 powr of_int ?e"
    using assms by simp
  then have "0 \<le> round_half_even (x / 2 powr of_int ?e)"
    by (rule round_half_even_nonneg)
  then have "0 \<le> real_of_int (round_half_even (x / 2 powr of_int ?e)) * 2 powr of_int ?e"
    by (intro mult_nonneg_nonneg) simp_all
  then show ?thesis
    using False assms by (simp add: round_double_def Let_def)
qed




lemma round_double_zero: "round_double 0 = Num 0"
  by (simp add: round_double_def)

lemma round_double_of_int:
  assumes "\<bar>n\<bar> < 2 ^ 53"
  shows "round_double (of_int n) = Num (of_int n)"
proof (cases "n = 0")
  case True
  then show ?thesis by (simp add: round_double_def)
next
  case False
  let ?x = "real_of_int n"
  have "1 \<le> \<bar>n\<bar>"
    using False by arith
  then have "real_of_int 1 \<le> real_of_int \<bar>n\<bar>"
    by (simp only: of_int_le_iff)
  then have pos: "1 \<le> \<bar>?x\<bar>"
    by simp
  have "real_of_int \<bar>n\<bar> < real_of_int (2 ^ 53)"
    using assms by (simp only: of_int_less_iff)
  then have "\<bar>?x\<bar> < 2 ^ 53"
    by simp
  then have "\<bar>?x\<bar> < 2 powr 53"
    by (simp add: powr_numeral [symmetric] del: powr_numeral) 
  then have "log 2 \<bar>?x\<bar> < 53"
    using pos by (simp add: log_less_iff)
  then have up: "\<lfloor>log 2 \<bar>?x\<bar>\<rfloor> \<le> 52"
    by (simp add: floor_le_iff)
  have "0 \<le> log 2 \<bar>?x\<bar>"
    using pos by simp
  then have lo: "0 \<le> \<lfloor>log 2 \<bar>?x\<bar>\<rfloor>"
    by simp
  let ?e = "double_exponent ?x"
  have e: "?e = \<lfloor>log 2 \<bar>?x\<bar>\<rfloor> - 52"
    using lo by (simp add: double_exponent_def)
  define j where "j = nat (- ?e)"
  have ej: "real_of_int ?e = - real j"
    using e up by (simp add: j_def)
  have p: "(2::real) powr real_of_int ?e = 1 / 2 ^ j"
    unfolding ej by (simp add: powr_minus powr_realpow divide_simps)
  have "?x / 2 powr real_of_int ?e = of_int (n * 2 ^ j)"
    unfolding p by simp
  then have m: "round_half_even (?x / 2 powr real_of_int ?e) = n * 2 ^ j"
    by (simp only: round_half_even_of_int)
  have v: "real_of_int (round_half_even (?x / 2 powr real_of_int ?e)) * 2 powr real_of_int ?e = ?x"
    unfolding m by (simp add: p)
  have "\<bar>?x\<bar> < 2 powr 1024"
    using \<open>\<bar>?x\<bar> < 2 powr 53\<close> by (rule less_le_trans) (simp add: powr_mono del: powr_numeral)
  then show ?thesis
    using False by (simp add: round_double_def Let_def v del: powr_numeral)
qed

lemma round_double_numerals:
  "round_double 1 = Num 1" "round_double 2 = Num 2" "round_double 4 = Num 4"
  "round_double (- 2) = Num (- 2)" "round_double 5 = Num 5" "round_double 3 = Num 3"
  using round_double_of_int[of 1] round_double_of_int[of 2] round_double_of_int[of 4]
    round_double_of_int[of "- 2"] round_double_of_int[of 5] round_double_of_int[of 3]
  by simp_all




lemma round_num_not_negative: "not_negative w \<Longrightarrow> not_negative (round_num w)"
  by (cases w) (simp_all add: round_double_not_negative)









section \<open>The metric library computes the cosine and the distance\<close>

text \<open>The loops of the two metrics compute the sums of the specification, in the same
  order and with the same roundings.\<close>

lemma cosine_loop_folds:
  assumes "length a = length b"
  shows "cosine_loop a b i (d, ma, mb) =
           (foldl (\<lambda>s (x, y). add_double s (mul_double (Num x) (Num y))) d (zip (drop i a) (drop i b)),
            foldl (\<lambda>s x. add_double s (mul_double (Num x) (Num x))) ma (drop i a),
            foldl (\<lambda>s x. add_double s (mul_double (Num x) (Num x))) mb (drop i b))"
  using assms
proof (induction a b i "(d, ma, mb)" arbitrary: d ma mb rule: cosine_loop.induct)
  case (1 vecA vecB i dotProduct magnitudeA magnitudeB)
  show ?case
  proof (cases "i < length vecA")
    case True
    then have b: "i < length vecB" using "1.prems" by simp
    have da: "drop i vecA = vecA ! i # drop (i + 1) vecA"
      using True by (simp add: Cons_nth_drop_Suc)
    have db: "drop i vecB = vecB ! i # drop (i + 1) vecB"
      using b by (simp add: Cons_nth_drop_Suc)
    show ?thesis
      using True "1.hyps"[OF True "1.prems"]
      by (subst cosine_loop.simps) (simp add: da db)
  next
    case False
    then show ?thesis
      using "1.prems" by (subst cosine_loop.simps) simp
  qed
qed

lemma cosineSimilarity_cosine:
  assumes "length a = length b"
  shows "cosineSimilarity a b = Inr (cosine a b)"
  using assms
  by (simp add: cosineSimilarity_def cosine_loop_folds cosine_def magnitude_def dot_product_def
        Let_def)

lemma euclidean_loop_fold:
  assumes "length a = length b"
  shows "euclidean_loop a b i acc =
           foldl (\<lambda>s (x, y). add_double s
                    (mul_double (sub_double (Num x) (Num y)) (sub_double (Num x) (Num y))))
             acc (zip (drop i a) (drop i b))"
  using assms
proof (induction a b i acc rule: euclidean_loop.induct)
  case (1 vecA vecB i sum_acc)
  show ?case
  proof (cases "i < length vecA")
    case True
    then have b: "i < length vecB" using "1.prems" by simp
    have da: "drop i vecA = vecA ! i # drop (i + 1) vecA"
      using True by (simp add: Cons_nth_drop_Suc)
    have db: "drop i vecB = vecB ! i # drop (i + 1) vecB"
      using b by (simp add: Cons_nth_drop_Suc)
    show ?thesis
      using True "1.IH"[OF True "1.prems"]
      by (subst euclidean_loop.simps) (simp add: da db pow_2_def)
  next
    case False
    then show ?thesis
      using "1.prems" by (subst euclidean_loop.simps) simp
  qed
qed

lemma euclideanDistance_euclidean:
  assumes "length a = length b"
  shows "euclideanDistance a b = Inr (euclidean a b)"
  using assms by (simp add: euclideanDistance_def euclidean_loop_fold euclidean_def)

lemma cosineSimilarity_returns:
  "(cosineSimilarity a b = Inl DimensionMismatch) = (length a \<noteq> length b)"
  "(\<exists>v. cosineSimilarity a b = Inr v) = (length a = length b)"
  by (auto simp: cosineSimilarity_def Let_def split: prod.splits)

lemma euclideanDistance_returns:
  "(euclideanDistance a b = Inl DimensionMismatch) = (length a \<noteq> length b)"
  "(\<exists>v. euclideanDistance a b = Inr v) = (length a = length b)"
  by (auto simp: euclideanDistance_def)


lemma magnitude_zero_vector: "magnitude (replicate n 0) = Num 0"
proof -
  have "foldl (\<lambda>s x. add_double s (mul_double (Num x) (Num x))) (Num 0) (replicate n 0) = Num 0"
    by (induction n) (simp_all add: add_double_def mul_double_def round_double_def)
  then show ?thesis
    by (simp add: magnitude_def sqrt_double_def round_double_def)
qed

lemma magnitude_example: "magnitude [0, 0] = Num 0"
  by (simp add: magnitude_def add_double_def mul_double_def sqrt_double_def round_double_zero)

text \<open>
  C4. For two vectors of the same length of which at least one has magnitude zero,
  \<open>cosineSimilarity\<close> returns the number 0, not \<open>NaN\<close> and not an error; so it does
  for the all-zero vector on either side of any vector. The magnitude is the one that is
  computed, in double precision: a vector whose squares all round to 0 has magnitude zero.
\<close>

theorem cosine_zero_magnitude:
  assumes "length a = length b" and "magnitude a = Num 0 \<or> magnitude b = Num 0"
  shows "cosineSimilarity a b = Inr (Num 0)
         \<and> cosineSimilarity (replicate (length b) 0) b = Inr (Num 0)
         \<and> cosineSimilarity b (replicate (length b) 0) = Inr (Num 0)"
proof (intro conjI)
  show "cosineSimilarity a b = Inr (Num 0)"
    using assms by (simp add: cosineSimilarity_cosine cosine_def)
  show "cosineSimilarity (replicate (length b) 0) b = Inr (Num 0)"
    by (simp add: cosineSimilarity_cosine cosine_def magnitude_zero_vector)
  show "cosineSimilarity b (replicate (length b) 0) = Inr (Num 0)"
    by (simp add: cosineSimilarity_cosine cosine_def magnitude_zero_vector)
qed

theorem cosine_zero_magnitude_witness:
  "length [0, 0::real] = length [3, 4::real]
   \<and> magnitude [0, 0] = Num 0
   \<and> cosineSimilarity [0, 0] [3, 4] = Inr (Num 0)
   \<and> cosineSimilarity (replicate (length [3, 4::real]) 0) [3, 4] = Inr (Num 0)
   \<and> cosineSimilarity [3, 4] (replicate (length [3, 4::real]) 0) = Inr (Num 0)"
proof -
  have h1: "length [0, 0::real] = length [3, 4::real]"
    by simp
  have h2: "magnitude [0, 0] = Num 0 \<or> magnitude [3, 4] = Num 0"
    by (simp add: magnitude_example)
  show ?thesis
    using cosine_zero_magnitude[OF h1 h2] h1 magnitude_example by blast
qed












section \<open>Ids of the store\<close>

lemma nextId_deleteDocument: "nextId (snd (deleteDocument s i)) = nextId s"
  by (simp add: deleteDocument_def split: option.splits)

lemma run_ops_ids:
  "fst (run_ops s ops) = [nextId s ..< nextId s + length (filter is_Add ops)]"
proof (induction s ops rule: run_ops.induct)
  case (1 s)
  then show ?case by simp
next
  case (2 s t e m ts ops)
  obtain d s' where a: "addDocument s t e m ts = (d, s')"
    by (cases "addDocument s t e m ts")
  then have d: "doc_id d = nextId s" and n: "nextId s' = nextId s + 1"
    by (auto simp: addDocument_def Let_def)
  obtain ids s'' where r: "run_ops s' ops = (ids, s'')"
    by (cases "run_ops s' ops")
  have "ids = [nextId s + 1 ..< nextId s + 1 + length (filter is_Add ops)]"
    using "2.IH"[OF a[symmetric]] r n by simp
  moreover have "[nextId s ..< nextId s + length (filter is_Add (Add t e m ts # ops))]
      = nextId s # [nextId s + 1 ..< nextId s + 1 + length (filter is_Add ops)]"
    by (subst upt_conv_Cons) simp_all
  ultimately show ?case using a r d by simp
next
  case (3 s i ops)
  then show ?case by (simp add: nextId_deleteDocument)
qed

text \<open>
  C5. From a fresh store, whatever deletions come in between, the additions return the
  ids 1, 2, 3, ... in order, so no id is used twice; after three additions and the
  deletion of id 2 the next addition returns 4; after \<open>clear\<close> the store is empty and
  the next addition returns 1.
\<close>

theorem store_id_monotonicity:
  "fst (run_ops new_store ops) = [1 ..< 1 + length (filter is_Add ops)]
   \<and> fst (run_ops new_store
            [Add t1 e1 m1 ts1, Add t2 e2 m2 ts2, Add t3 e3 m3 ts3, Delete 2, Add t4 e4 m4 ts4])
       = [1, 2, 3, 4]
   \<and> documents (clear s) = [] \<and> nextId (clear s) = 1
   \<and> doc_id (fst (addDocument (clear s) t e m ts)) = 1"
proof (intro conjI)
  show "fst (run_ops new_store ops) = [1 ..< 1 + length (filter is_Add ops)]"
    using run_ops_ids[of new_store ops] by (simp add: new_store_def)
  show "fst (run_ops new_store
            [Add t1 e1 m1 ts1, Add t2 e2 m2 ts2, Add t3 e3 m3 ts3, Delete 2, Add t4 e4 m4 ts4])
       = [1, 2, 3, 4]"
    by (simp add: new_store_def addDocument_def deleteDocument_def Let_def)
  show "documents (clear s) = []"
    by (simp add: clear_def)
  show "nextId (clear s) = 1"
    by (simp add: clear_def)
  show "doc_id (fst (addDocument (clear s) t e m ts)) = 1"
    by (simp add: addDocument_def clear_def Let_def)
qed

section \<open>Where double precision shows\<close>

text \<open>
  Two runs in which the doubles differ from the real numbers. The cosine similarity of
  \<open>[1, 1]\<close> to itself is computed as \<open>2 / (sqrt 2 * sqrt 2)\<close>: the product of the two
  rounded roots is the double above 2, and the quotient is the second double below 1,
  \<^verbatim>\<open>0.9999999999999998\<close>. So a search for \<open>[1, 1]\<close> with the threshold 1 does not return
  the record with that embedding. The square of \<open>2^-600\<close> is below half of the smallest
  double and rounds to 0. So a record at that distance from the query has the distance
  0, as a record at the query has.
\<close>

lemma floor_log2:
  assumes "0 < x" and "2 powr of_int k \<le> x" and "x < 2 powr of_int (k + 1)"
  shows "\<lfloor>log 2 x\<rfloor> = k"
proof (rule floor_unique)
  show "of_int k \<le> log 2 x"
    using assms by (simp add: le_log_iff)
  show "log 2 x < of_int k + 1"
    using assms by (simp add: log_less_iff)
qed

lemma round_half_even_near:
  assumes "of_int m - 1 / 2 < y" and "y < of_int m + 1 / 2"
  shows "round_half_even y = m"
proof -
  have "m - 1 \<le> \<lfloor>y\<rfloor>"
    using assms(1) by (simp add: le_floor_iff)
  moreover have "\<lfloor>y\<rfloor> \<le> m"
    using assms(2) by (simp add: floor_le_iff)
  ultimately consider "\<lfloor>y\<rfloor> = m" | "\<lfloor>y\<rfloor> = m - 1"
    by linarith
  then show ?thesis
  proof cases
    case 1
    then show ?thesis
      using assms by (simp add: round_half_even_def Let_def)
  next
    case 2
    then show ?thesis
      using assms by (simp add: round_half_even_def Let_def)
  qed
qed

lemma round_double_eq:
  assumes "x \<noteq> 0" and "double_exponent x = e"
    and "round_half_even (x / 2 powr of_int e) = m"
    and "\<bar>of_int m * 2 powr of_int e\<bar> < (2::real) powr 1024"
  shows "round_double x = Num (of_int m * 2 powr of_int e)"
  using assms by (simp add: round_double_def Let_def)

lemma sqrt_double_2: "sqrt_double (Num 2) = Num (6369051672525773 / 2 ^ 52)"
proof -
  have lo: "(1::real) \<le> sqrt 2" by simp
  have hi: "sqrt 2 < (2::real)"
    by (rule real_less_lsqrt) simp_all
  have "\<lfloor>log 2 (sqrt 2)\<rfloor> = 0"
    using lo hi by (intro floor_log2) simp_all
  then have e: "double_exponent (sqrt 2) = - 52"
    by (simp add: double_exponent_def)
  have p: "(2::real) powr of_int (- 52) = 1 / 2 ^ 52"
    by (simp add: powr_minus_divide powr_numeral del: of_int_minus)
       (simp add: powr_minus_divide)
  have a: "(6369051672525773 - 1 / 2) / 2 ^ 52 < sqrt (2::real)"
    by (rule real_less_rsqrt) (simp add: power2_eq_square)
  have b: "sqrt (2::real) < (6369051672525773 + 1 / 2) / 2 ^ 52"
    by (rule real_less_lsqrt) (simp_all add: power2_eq_square)
  have "round_half_even (sqrt 2 / 2 powr of_int (- 52)) = 6369051672525773"
  proof (rule round_half_even_near)
    show "of_int 6369051672525773 - 1 / 2 < sqrt 2 / 2 powr of_int (- 52)"
      unfolding p using a by (simp add: field_simps)
    show "sqrt 2 / 2 powr of_int (- 52) < of_int 6369051672525773 + 1 / 2"
      unfolding p using b by (simp add: field_simps)
  qed
  moreover have "\<bar>of_int 6369051672525773 * 2 powr of_int (- 52)\<bar> < (2::real) powr 1024"
    unfolding p by (simp add: powr_numeral)
  ultimately have "round_double (sqrt 2) = Num (of_int 6369051672525773 * 2 powr of_int (- 52))"
    using e by (intro round_double_eq) simp_all
  then show ?thesis
    unfolding p by (simp add: sqrt_double_def)
qed

lemma magnitude_diagonal: "magnitude [1, 1] = Num (6369051672525773 / 2 ^ 52)"
  by (simp add: magnitude_def add_double_def mul_double_def round_double_zero
        round_double_numerals sqrt_double_2)

lemma product_of_magnitudes:
  "mul_double (Num (6369051672525773 / 2 ^ 52)) (Num (6369051672525773 / 2 ^ 52))
   = Num (4503599627370497 / 2 ^ 51)"
proof -
  let ?x = "6369051672525773 / 2 ^ 52 * (6369051672525773 / 2 ^ 52) :: real"
  have "\<lfloor>log 2 \<bar>?x\<bar>\<rfloor> = 1"
    by (intro floor_log2) simp_all
  then have e: "double_exponent ?x = - 51"
    by (simp add: double_exponent_def)
  have p: "(2::real) powr of_int (- 51) = 1 / 2 ^ 51"
    by (simp add: powr_minus_divide powr_numeral del: of_int_minus)
       (simp add: powr_minus_divide)
  have "round_half_even (?x / 2 powr of_int (- 51)) = 4503599627370497"
    unfolding p by (rule round_half_even_near) simp_all
  moreover have "\<bar>of_int 4503599627370497 * 2 powr of_int (- 51)\<bar> < (2::real) powr 1024"
    unfolding p by (simp add: powr_numeral)
  ultimately have "round_double ?x = Num (of_int 4503599627370497 * 2 powr of_int (- 51))"
    using e by (intro round_double_eq) simp_all
  then show ?thesis
    unfolding p by (simp add: mul_double_def)
qed

lemma quotient_below_1:
  "div_double (Num 2) (Num (4503599627370497 / 2 ^ 51)) = Num (1 - 1 / 2 ^ 52)"
proof -
  let ?x = "2 / (4503599627370497 / 2 ^ 51) :: real"
  have "\<lfloor>log 2 \<bar>?x\<bar>\<rfloor> = - 1"
    by (intro floor_log2) (simp_all add: powr_minus_divide)
  then have e: "double_exponent ?x = - 53"
    by (simp add: double_exponent_def)
  have p: "(2::real) powr of_int (- 53) = 1 / 2 ^ 53"
    by (simp add: powr_minus_divide powr_numeral del: of_int_minus)
       (simp add: powr_minus_divide)
  have "round_half_even (?x / 2 powr of_int (- 53)) = 9007199254740990"
    unfolding p by (rule round_half_even_near) simp_all
  moreover have "\<bar>of_int 9007199254740990 * 2 powr of_int (- 53)\<bar> < (2::real) powr 1024"
    unfolding p by (simp add: powr_numeral)
  ultimately have "round_double ?x = Num (of_int 9007199254740990 * 2 powr of_int (- 53))"
    using e by (intro round_double_eq) simp_all
  then show ?thesis
    unfolding p by (simp add: div_double_def)
qed

lemma cosine_diagonal: "cosine [1, 1] [1, 1] = Num (1 - 1 / 2 ^ 52)"
proof -
  have d: "dot_product [1, 1] [1, 1] = Num 2"
    by (simp add: dot_product_def add_double_def mul_double_def round_double_zero
          round_double_numerals)
  have n: "magnitude [1, 1] \<noteq> Num 0"
    unfolding magnitude_diagonal by simp
  have "cosine [1, 1] [1, 1]
        = div_double (Num 2)
            (mul_double (Num (6369051672525773 / 2 ^ 52)) (Num (6369051672525773 / 2 ^ 52)))"
    using n by (simp only: cosine_def d magnitude_diagonal if_False simp_thms)
  also have "\<dots> = div_double (Num 2) (Num (4503599627370497 / 2 ^ 51))"
    by (simp only: product_of_magnitudes)
  also have "\<dots> = Num (1 - 1 / 2 ^ 52)"
    by (rule quotient_below_1)
  finally show ?thesis .
qed

lemma search_diagonal:
  "search diagonal_store [1, 1] 5 (Num 1) = Inr []"
  "search diagonal_store [1, 1] 5 (Num 0)
   = Inr [with_score (documents diagonal_store ! 0) (Num (1 - 1 / 2 ^ 52))]"
proof -
  have c: "cosineSimilarity [1, 1] [1, 1] = Inr (Num (1 - 1 / 2 ^ 52))"
    by (simp add: cosineSimilarity_cosine cosine_diagonal)
  show "search diagonal_store [1, 1] 5 (Num 1) = Inr []"
    by (simp add: search_def diagonal_store_def c with_score_def js_ge_def js_sort_def
          slice_to_def)
  show "search diagonal_store [1, 1] 5 (Num 0)
        = Inr [with_score (documents diagonal_store ! 0) (Num (1 - 1 / 2 ^ 52))]"
    by (simp add: search_def diagonal_store_def c with_score_def js_ge_def js_sort_def
          slice_to_def)
qed

text \<open>A search evaluated: the two records of similarity 1 come first, in the order of
  the store, and the record of similarity 0 is cut off by \<open>topK\<close>.\<close>

lemma search_demo:
  "search demo_store [1, 0] 2 (Num 0)
   = Inr [with_score (documents demo_store ! 1) (Num 1),
          with_score (documents demo_store ! 2) (Num 1)]"
proof -
  have a: "cosineSimilarity [1, 0] [0, 2] = Inr (Num 0)"
    by (simp add: cosineSimilarity_cosine cosine_def magnitude_def dot_product_def
          add_double_def mul_double_def sqrt_double_def div_double_def
          round_double_zero round_double_numerals)
  have b: "cosineSimilarity [1, 0] [1, 0] = Inr (Num 1)"
    by (simp add: cosineSimilarity_cosine cosine_def magnitude_def dot_product_def
          add_double_def mul_double_def sqrt_double_def div_double_def
          round_double_zero round_double_numerals)
  show ?thesis
    by (simp add: search_def demo_store_def a b with_score_def js_ge_def js_sort_def
          sub_double_def round_double_zero round_double_numerals slice_to_def)
qed





section \<open>Ranking\<close>

lemma map_throwing_ok:
  assumes "\<forall>x\<in>set xs. f x = Inr (g x)"
  shows "map_throwing f xs = Inr (map g xs)"
  using assms by (induction xs) auto

lemma map_throwing_error:
  assumes "\<forall>y\<in>set pre. f y = Inr (g y)" and "f x = Inl e"
  shows "map_throwing f (pre @ x # post) = Inl e"
  using assms by (induction pre) auto














lemma at_least_not_NaN: "at_least v bound \<Longrightarrow> v \<noteq> NaN"
  by (simp add: at_least_def)

lemma at_most_not_NaN: "at_most v bound \<Longrightarrow> v \<noteq> NaN"
  by (simp add: at_most_def)

text \<open>A negative \<open>topK\<close> is not a number of results: the slice then drops that many
  entries from the end of the ranking.\<close>

lemma slice_to_negative: "k < 0 \<Longrightarrow> slice_to xs k = take (length xs - nat (- k)) xs"
proof -
  assume "k < 0"
  then have "nat (int (length xs) + k) = length xs - nat (- k)"
    by arith
  then show ?thesis
    using \<open>k < 0\<close> by (simp add: slice_to_def)
qed










section \<open>A search leaves the store as it was\<close>

lemma unchanged_length:
  assumes "unchanged h0 h"
  shows "length h0 \<le> length h"
proof -
  from assms have "length (take (length h0) h) = length h0"
    by (simp only: unchanged_def)
  then show ?thesis by simp
qed

lemma unchanged_append: "unchanged h0 h \<Longrightarrow> unchanged h0 (h @ ext)"
  using unchanged_length[of h0 h] by (simp add: unchanged_def)

lemma unchanged_lookup:
  assumes "unchanged h h'" and "lookup h a = Some c"
  shows "lookup h' a = Some c"
proof -
  from assms(2) have a: "a < length h" and c: "h ! a = c"
    by (auto simp: lookup_def split: if_splits)
  have "take (length h) h' ! a = h' ! a"
    using a by simp
  then have "h' ! a = c"
    using assms(1) c by (simp add: unchanged_def)
  then show ?thesis
    using a unchanged_length[OF assms(1)] by (simp add: lookup_def)
qed

lemma map_objects_extends: "\<exists>ext. snd (map_objects f xs h) = h @ ext"
proof (induction xs arbitrary: h)
  case Nil
  then show ?case by simp
next
  case (Cons a xs)
  show ?case
  proof (cases "lookup h a")
    case None
    then show ?thesis by simp
  next
    case (Some c)
    show ?thesis
    proof (cases c)
      case (RecordObject doc sc di)
      show ?thesis
      proof (cases "f doc sc di")
        case (Inl e)
        then show ?thesis using Some RecordObject by simp
      next
        case (Inr obj)
        from Cons.IH[of "h @ [obj]"] obtain ext where
          ext: "snd (map_objects f xs (h @ [obj])) = (h @ [obj]) @ ext"
          by blast
        obtain r h2 where r: "map_objects f xs (h @ [obj]) = (r, h2)"
          by (cases "map_objects f xs (h @ [obj])")
        with ext have "h2 = h @ ([obj] @ ext)" by simp
        then show ?thesis
          using Some RecordObject Inr r
          by (cases r) (auto simp: alloc_def)
      qed
    qed (use Some in simp_all)
  qed
qed

lemma array_map_extends: "\<exists>ext. snd (array_map f arr h) = h @ ext"
proof (cases "lookup h arr")
  case None
  then show ?thesis by (simp add: array_map_def)
next
  case (Some c)
  show ?thesis
  proof (cases c)
    case (ArrayObject xs)
    from map_objects_extends[of f xs h] obtain ext where
      ext: "snd (map_objects f xs h) = h @ ext"
      by blast
    obtain r h1 where r: "map_objects f xs h = (r, h1)"
      by (cases "map_objects f xs h")
    with ext have h1: "h1 = h @ ext" by simp
    show ?thesis
    proof (cases r)
      case (Inl e)
      then show ?thesis
        using Some ArrayObject r h1 by (simp add: array_map_def and_then_def)
    next
      case (Inr rs)
      then have "snd (array_map f arr h) = h @ (ext @ [ArrayObject rs])"
        using Some ArrayObject r h1 by (simp add: array_map_def and_then_def alloc_def)
      then show ?thesis by blast
    qed
  qed (use Some in \<open>simp_all add: array_map_def\<close>)
qed

lemma rest_extends:
  "\<exists>ext. snd (and_then (array_filter p results h)
                 (\<lambda>filtered h2. and_then (array_sort cmp filtered h2)
                    (\<lambda>sorted h3. array_slice k sorted h3))) = h @ ext"
proof (cases "lookup h results")
  case None
  then show ?thesis by (simp add: array_filter_def and_then_def)
next
  case (Some c)
  show ?thesis
  proof (cases c)
    case (ArrayObject xs)
    let ?h2 = "h @ [ArrayObject (filter (p h) xs)]"
    have f: "array_filter p results h = (Inr (length h), ?h2)"
      using Some ArrayObject by (simp add: array_filter_def alloc_def)
    have s: "array_sort cmp (length h) ?h2 =
             (Inr (length h), h @ [ArrayObject (js_sort (cmp ?h2) (filter (p h) xs))])"
      by (simp add: array_sort_def lookup_def)
    have "array_slice k (length h) (h @ [ArrayObject ys]) =
          (Inr (Suc (length h)), h @ [ArrayObject ys, ArrayObject (slice_to ys k)])" for ys
      by (simp add: array_slice_def lookup_def alloc_def)
    then show ?thesis
      by (simp add: and_then_def f s)
  qed (use Some in \<open>simp_all add: array_filter_def and_then_def\<close>)
qed

lemma and_then_extends:
  assumes "\<exists>ext. snd r = h @ ext" and "\<And>x h1. \<exists>ext. snd (f x h1) = h1 @ ext"
  shows "\<exists>ext. snd (and_then r f) = h @ ext"
proof -
  obtain v h1 where r: "r = (v, h1)" by (cases r)
  from assms(1) r obtain ext where h1: "h1 = h @ ext" by auto
  show ?thesis
  proof (cases v)
    case (Inl e)
    then show ?thesis using r h1 by (simp add: and_then_def)
  next
    case (Inr x)
    from assms(2)[of x h1] obtain ext' where "snd (f x h1) = h1 @ ext'" by blast
    then have "snd (and_then r f) = h @ (ext @ ext')"
      using r Inr h1 by (simp add: and_then_def)
    then show ?thesis by blast
  qed
qed

lemma search_heap_extends: "\<exists>ext. snd (search_heap this q topK threshold h) = h @ ext"
proof (cases "lookup h this")
  case None
  then show ?thesis by (simp add: search_heap_def)
next
  case (Some c)
  show ?thesis
  proof (cases c)
    case (StoreObject docs n)
    show ?thesis
      unfolding search_heap_def Some StoreObject option.case cell.case
      by (intro and_then_extends array_map_extends rest_extends)
  qed (use Some in \<open>simp_all add: search_heap_def\<close>)
qed

lemma searchByDistance_heap_extends:
  "\<exists>ext. snd (searchByDistance_heap this q topK maxDistance h) = h @ ext"
proof (cases "lookup h this")
  case None
  then show ?thesis by (simp add: searchByDistance_heap_def)
next
  case (Some c)
  show ?thesis
  proof (cases c)
    case (StoreObject docs n)
    show ?thesis
      unfolding searchByDistance_heap_def Some StoreObject option.case cell.case
      by (intro and_then_extends array_map_extends rest_extends)
  qed (use Some in \<open>simp_all add: searchByDistance_heap_def\<close>)
qed

lemma unchanged_store_view:
  assumes "unchanged h h'" and "store_view h this = Some v"
  shows "store_view h' this = Some v"
proof -
  from assms(2) obtain docs n xs rs where
    st: "lookup h this = Some (StoreObject docs n)"
    and ar: "lookup h docs = Some (ArrayObject xs)"
    and rs: "those (map (record_at h) xs) = Some rs"
    and v: "v = (rs, n)"
    by (auto simp: store_view_def split: option.splits cell.splits)
  have "\<forall>a\<in>set xs. record_at h' a = record_at h a"
  proof
    fix a assume a: "a \<in> set xs"
    have "record_at h a \<noteq> None"
    proof
      assume "record_at h a = None"
      then have "None \<in> set (map (record_at h) xs)" using a by force
      then have "those (map (record_at h) xs) = None"
        by (induction xs) (auto split: option.splits)
      then show False using rs by simp
    qed
    then obtain c where "lookup h a = Some c"
      by (auto simp: record_at_def split: option.splits)
    then show "record_at h' a = record_at h a"
      using unchanged_lookup[OF assms(1)] by (simp add: record_at_def)
  qed
  then have m: "map (record_at h') xs = map (record_at h) xs"
    by simp
  show ?thesis
    using unchanged_lookup[OF assms(1) st] unchanged_lookup[OF assms(1) ar] rs v
    by (simp add: store_view_def m)
qed

text \<open>
  C10. After \<open>search\<close> and after \<open>searchByDistance\<close>, whether they return or throw,
  every cell of the heap from before the call has its content from before the call. So
  the store object, its array and its records are as they were: the same records in the
  same order with the same fields, none with a \<open>score\<close> or a \<open>distance\<close> it did not
  have, and the same counter.
\<close>

theorem search_leaves_store_unchanged:
  "unchanged h (snd (search_heap this q topK threshold h))
   \<and> unchanged h (snd (searchByDistance_heap this q topK maxDistance h))
   \<and> (store_view h this = Some v \<longrightarrow>
        store_view (snd (search_heap this q topK threshold h)) this = Some v
        \<and> store_view (snd (searchByDistance_heap this q topK maxDistance h)) this = Some v)"
proof -
  have a: "unchanged h (snd (search_heap this q topK threshold h))"
    using search_heap_extends[of this q topK threshold h] by (auto simp: unchanged_def)
  have b: "unchanged h (snd (searchByDistance_heap this q topK maxDistance h))"
    using searchByDistance_heap_extends[of this q topK maxDistance h] by (auto simp: unchanged_def)
  show ?thesis
    using a b unchanged_store_view by blast
qed

lemma demo_view:
  "store_view demo_heap 0 = Some (map (\<lambda>d. (d, None, None)) (documents demo_store), 4)"
  by (simp add: store_view_def record_at_def lookup_def demo_heap_def demo_store_def)

theorem search_leaves_store_unchanged_witness:
  "store_view demo_heap 0 = Some (map (\<lambda>d. (d, None, None)) (documents demo_store), 4)
   \<and> store_view (snd (search_heap 0 [1, 0] 2 (Num 0) demo_heap)) 0
       = Some (map (\<lambda>d. (d, None, None)) (documents demo_store), 4)
   \<and> store_view (snd (searchByDistance_heap 0 [1, 0] 2 PosInfinity demo_heap)) 0
       = Some (map (\<lambda>d. (d, None, None)) (documents demo_store), 4)"
  using demo_view
    search_leaves_store_unchanged[of demo_heap 0 "[1, 0]" 2 "Num 0" PosInfinity
      "(map (\<lambda>d. (d, None, None)) (documents demo_store), 4)"]
  by blast

section \<open>The searches on the heap return what the searches of the store return\<close>

lemma search_run:
  assumes "\<forall>d\<in>set (documents s). length (embedding d) = length q"
  shows "search s q topK threshold =
         Inr (slice_to
                (js_sort (\<lambda>a b. sub_double (score b) (score a))
                   (filter (\<lambda>r. js_ge (score r) threshold)
                      (map (\<lambda>d. with_score d (cosine q (embedding d))) (documents s))))
                topK)"
proof -
  have "map_throwing (\<lambda>doc. case cosineSimilarity q (embedding doc) of
                      Inl e \<Rightarrow> Inl e
                    | Inr similarity \<Rightarrow> Inr (with_score doc similarity)) (documents s)
        = Inr (map (\<lambda>d. with_score d (cosine q (embedding d))) (documents s))"
    using assms by (intro map_throwing_ok) (simp add: cosineSimilarity_cosine)
  then show ?thesis
    by (simp add: search_def)
qed

lemma searchByDistance_run:
  assumes "\<forall>d\<in>set (documents s). length (embedding d) = length q"
  shows "searchByDistance s q topK maxDistance =
         Inr (slice_to
                (js_sort (\<lambda>a b. sub_double (distance a) (distance b))
                   (filter (\<lambda>r. js_le (distance r) maxDistance)
                      (map (\<lambda>d. with_distance d (euclidean q (embedding d))) (documents s))))
                topK)"
proof -
  have "map_throwing (\<lambda>doc. case euclideanDistance q (embedding doc) of
                      Inl e \<Rightarrow> Inl e
                    | Inr dst \<Rightarrow> Inr (with_distance doc dst)) (documents s)
        = Inr (map (\<lambda>d. with_distance d (euclidean q (embedding d))) (documents s))"
    using assms by (intro map_throwing_ok) (simp add: euclideanDistance_euclidean)
  then show ?thesis
    by (simp add: searchByDistance_def)
qed

lemma slice_to_map: "map f (slice_to xs k) = slice_to (map f xs) k"
  by (simp add: slice_to_def take_map)

lemma set_slice_to: "set (slice_to xs k) \<subseteq> set xs"
  by (auto simp: slice_to_def dest: in_set_takeD)

lemma search_mismatch:
  assumes "\<exists>d\<in>set (documents s). length (embedding d) \<noteq> length q"
  shows "search s q topK threshold = Inl DimensionMismatch"
proof -
  from split_list_first_prop[OF assms] obtain pre d post where
    docs: "documents s = pre @ d # post"
    and bad: "length (embedding d) \<noteq> length q"
    and good: "\<forall>p\<in>set pre. \<not> length (embedding p) \<noteq> length q"
    by blast
  let ?f = "\<lambda>doc. case cosineSimilarity q (embedding doc) of
                      Inl e \<Rightarrow> Inl e
                    | Inr similarity \<Rightarrow> Inr (with_score doc similarity)"
  have "\<forall>p\<in>set pre. ?f p = Inr (with_score p (cosine q (embedding p)))"
    using good by (simp add: cosineSimilarity_cosine)
  moreover have "?f d = Inl DimensionMismatch"
    using bad by (simp add: cosineSimilarity_def)
  ultimately have "map_throwing ?f (pre @ d # post) = Inl DimensionMismatch"
    by (rule map_throwing_error)
  then show ?thesis
    by (simp add: search_def docs)
qed

lemma searchByDistance_mismatch:
  assumes "\<exists>d\<in>set (documents s). length (embedding d) \<noteq> length q"
  shows "searchByDistance s q topK maxDistance = Inl DimensionMismatch"
proof -
  from split_list_first_prop[OF assms] obtain pre d post where
    docs: "documents s = pre @ d # post"
    and bad: "length (embedding d) \<noteq> length q"
    and good: "\<forall>p\<in>set pre. \<not> length (embedding p) \<noteq> length q"
    by blast
  let ?f = "\<lambda>doc. case euclideanDistance q (embedding doc) of
                      Inl e \<Rightarrow> Inl e
                    | Inr dst \<Rightarrow> Inr (with_distance doc dst)"
  have "\<forall>p\<in>set pre. ?f p = Inr (with_distance p (euclidean q (embedding p)))"
    using good by (simp add: euclideanDistance_euclidean)
  moreover have "?f d = Inl DimensionMismatch"
    using bad by (simp add: euclideanDistance_def)
  ultimately have "map_throwing ?f (pre @ d # post) = Inl DimensionMismatch"
    by (rule map_throwing_error)
  then show ?thesis
    by (simp add: searchByDistance_def docs)
qed

lemma lookup_append: "lookup h a = Some c \<Longrightarrow> lookup (h @ ext) a = Some c"
  by (auto simp: lookup_def nth_append split: if_splits)

lemma lookup_fresh: "lookup (h @ c # ext) (length h) = Some c"
  by (simp add: lookup_def nth_append)

lemma lookup_nth_append: "i < length ext \<Longrightarrow> lookup (h @ ext) (length h + i) = Some (ext ! i)"
  by (simp add: lookup_def nth_append)

lemma record_at_append: "record_at h a = Some x \<Longrightarrow> record_at (h @ ext) a = Some x"
proof -
  assume a: "record_at h a = Some x"
  then obtain c where c: "lookup h a = Some c"
    by (auto simp: record_at_def split: option.splits)
  from lookup_append[OF c, of ext] a c show ?thesis
    by (simp add: record_at_def)
qed

lemma map_objects_ok:
  assumes "list_all2 (\<lambda>a d. record_at h a = Some (d, None, None)) xs ds"
    and "\<forall>d\<in>set ds. f d None None = Inr (g d)"
  shows "map_objects f xs (h @ ext) =
           (Inr [length (h @ ext) ..< length (h @ ext) + length ds], h @ ext @ map g ds)"
  using assms
proof (induction xs ds arbitrary: ext rule: list_all2_induct)
  case Nil
  then show ?case by simp
next
  case (Cons a xs d ds)
  from record_at_append[OF Cons.hyps(1), of ext]
  have l: "lookup (h @ ext) a = Some (RecordObject d None None)"
    by (auto simp: record_at_def split: option.splits cell.splits)
  have f: "f d None None = Inr (g d)"
    using Cons.prems by simp
  have IH: "map_objects f xs (h @ (ext @ [g d])) =
           (Inr [length (h @ ext @ [g d]) ..< length (h @ ext @ [g d]) + length ds],
            h @ (ext @ [g d]) @ map g ds)"
    using Cons.IH[of "ext @ [g d]"] Cons.prems by simp
  have "[length (h @ ext) ..< length (h @ ext) + length (d # ds)] =
        length (h @ ext) # [length (h @ ext @ [g d]) ..< length (h @ ext @ [g d]) + length ds]"
    by (subst upt_conv_Cons) simp_all
  then show ?case
    using l f IH by (simp add: alloc_def)
qed

lemma map_objects_stops:
  assumes "list_all2 (\<lambda>a d. record_at h a = Some (d, None, None)) xs (pre @ d # post)"
    and "\<forall>p\<in>set pre. f p None None = Inr (g p)"
    and "f d None None = Inl e"
  shows "map_objects f xs (h @ ext) = (Inl e, h @ ext @ map g pre)"
  using assms
proof (induction pre arbitrary: xs ext)
  case Nil
  then obtain a xs' where xs: "xs = a # xs'" and a: "record_at h a = Some (d, None, None)"
    by (auto simp: list_all2_Cons2)
  from record_at_append[OF a, of ext]
  have "lookup (h @ ext) a = Some (RecordObject d None None)"
    by (auto simp: record_at_def split: option.splits cell.splits)
  then show ?case using xs Nil.prems(3) by simp
next
  case (Cons p pre)
  then obtain a xs' where xs: "xs = a # xs'" and a: "record_at h a = Some (p, None, None)"
    and rest: "list_all2 (\<lambda>a d. record_at h a = Some (d, None, None)) xs' (pre @ d # post)"
    by (auto simp: list_all2_Cons2)
  from record_at_append[OF a, of ext]
  have l: "lookup (h @ ext) a = Some (RecordObject p None None)"
    by (auto simp: record_at_def split: option.splits cell.splits)
  have f: "f p None None = Inr (g p)"
    using Cons.prems by simp
  have "map_objects f xs' (h @ (ext @ [g p])) = (Inl e, h @ (ext @ [g p]) @ map g pre)"
    using Cons.IH[OF rest _ Cons.prems(3), of "ext @ [g p]"] Cons.prems(2) by simp
  then show ?case
    using xs l f by (simp add: alloc_def)
qed

lemma those_map_Some: "those (map (\<lambda>x. Some (f x)) xs) = Some (map f xs)"
  by (induction xs) auto

lemma those_Some_list_all2:
  "those (map f xs) = Some ys \<Longrightarrow> list_all2 (\<lambda>x y. f x = Some y) xs ys"
proof (induction xs arbitrary: ys)
  case Nil
  then show ?case by simp
next
  case (Cons x xs)
  then show ?case by (auto split: option.splits)
qed

lemma set_insert_by: "set (insert_by cmp x ys) = insert x (set ys)"
  by (induction ys) auto

lemma set_js_sort: "set (js_sort cmp xs) = set xs"
  by (induction xs) (auto simp: js_sort_def set_insert_by)

lemma insert_by_cong:
  assumes "\<forall>y\<in>set ys. cmp x y = cmp' x y"
  shows "insert_by cmp x ys = insert_by cmp' x ys"
  using assms by (induction ys) auto

lemma js_sort_cong:
  assumes "\<forall>x\<in>set xs. \<forall>y\<in>set xs. cmp x y = cmp' x y"
  shows "js_sort cmp xs = js_sort cmp' xs"
  using assms
proof (induction xs)
  case Nil
  then show ?case by (simp add: js_sort_def)
next
  case (Cons x xs)
  have "js_sort cmp xs = js_sort cmp' xs"
    using Cons by simp
  moreover have "insert_by cmp x (js_sort cmp' xs) = insert_by cmp' x (js_sort cmp' xs)"
    using Cons.prems by (intro insert_by_cong) (simp add: set_js_sort)
  ultimately show ?case
    by (simp add: js_sort_def)
qed

lemma insert_by_map:
  "map v (insert_by (\<lambda>a b. c (v a) (v b)) x ys) = insert_by c (v x) (map v ys)"
  by (induction ys) auto

lemma js_sort_map: "map v (js_sort (\<lambda>a b. c (v a) (v b)) xs) = js_sort c (map v xs)"
  by (induction xs) (auto simp: js_sort_def insert_by_map)

lemma view_records:
  assumes "store_view h this = Some (map (\<lambda>d. (d, None, None)) ds, n)"
  obtains docs xs where "lookup h this = Some (StoreObject docs n)"
    and "lookup h docs = Some (ArrayObject xs)"
    and "list_all2 (\<lambda>a d. record_at h a = Some (d, None, None)) xs ds"
proof -
  from assms obtain docs xs where
    st: "lookup h this = Some (StoreObject docs n)"
    and ar: "lookup h docs = Some (ArrayObject xs)"
    and th: "those (map (record_at h) xs) = Some (map (\<lambda>d. (d, None, None)) ds)"
    by (auto simp: store_view_def split: option.splits cell.splits)
  from those_Some_list_all2[OF th]
  have "list_all2 (\<lambda>a d. record_at h a = Some (d, None, None)) xs ds"
    by (simp add: list_all2_map2)
  with st ar that show thesis by blast
qed

lemma and_then_error: "fst r = Inl e \<Longrightarrow> fst (and_then r f) = Inl e"
  by (cases r) (simp add: and_then_def)

lemma outcome_error: "fst r = Inl e \<Longrightarrow> outcome rd r = Inl e"
  by (cases r) (simp add: outcome_def)

lemma pipeline_run:
  assumes "lookup H results = Some (ArrayObject A)"
  shows "and_then (array_filter p results H)
           (\<lambda>filtered h2. and_then (array_sort cmp filtered h2)
              (\<lambda>sorted h3. array_slice k sorted h3))
         = (Inr (Suc (length H)),
            H @ [ArrayObject (js_sort (cmp (H @ [ArrayObject (filter (p H) A)])) (filter (p H) A)),
                 ArrayObject (slice_to (js_sort (cmp (H @ [ArrayObject (filter (p H) A)])) (filter (p H) A)) k)])"
proof -
  let ?F = "filter (p H) A"
  let ?H3 = "H @ [ArrayObject ?F]"
  let ?S = "js_sort (cmp ?H3) ?F"
  have f: "array_filter p results H = (Inr (length H), ?H3)"
    using assms by (simp add: array_filter_def alloc_def)
  have s: "array_sort cmp (length H) ?H3 = (Inr (length H), H @ [ArrayObject ?S])"
    by (simp add: array_sort_def lookup_def)
  have l: "array_slice k (length H) (H @ [ArrayObject ?S]) =
           (Inr (Suc (length H)), H @ [ArrayObject ?S, ArrayObject (slice_to ?S k)])"
    by (simp add: array_slice_def lookup_def alloc_def)
  show ?thesis
    by (simp add: and_then_def f s l)
qed

lemma and_then_Inl: "and_then (Inl e, h) f = (Inl e, h)"
  by (simp add: and_then_def)

text \<open>
  When the heap holds a store whose records have neither a \<open>score\<close> nor a
  \<open>distance\<close>, as \<open>addDocument\<close> creates them, the search on the heap returns the
  results, or throws the exception, of the search on that store.
\<close>

lemma search_heap_refines:
  assumes view: "store_view h this = Some (map (\<lambda>d. (d, None, None)) ds, n)"
  shows "outcome results_at (search_heap this q topK threshold h)
         = search \<lparr>documents = ds, nextId = n\<rparr> q topK threshold"
proof -
  from view obtain docs xs where
    st: "lookup h this = Some (StoreObject docs n)"
    and ar: "lookup h docs = Some (ArrayObject xs)"
    and recs: "list_all2 (\<lambda>a d. record_at h a = Some (d, None, None)) xs ds"
    by (rule view_records)
  let ?f = "\<lambda>doc sc di. case cosineSimilarity q (embedding doc) of
                                Inl e \<Rightarrow> Inl e
                              | Inr similarity \<Rightarrow> Inr (RecordObject doc (Some similarity) di)"
  let ?g = "\<lambda>d. RecordObject d (Some (cosine q (embedding d))) None"
  let ?p = "\<lambda>h a. case score_at h a of Some sc \<Rightarrow> js_ge sc threshold | None \<Rightarrow> False"
  let ?c = "\<lambda>h a b. case (score_at h b, score_at h a) of
                                     (Some sb, Some sa) \<Rightarrow> sub_double sb sa
                                   | _ \<Rightarrow> NaN"
  let ?s = "\<lparr>documents = ds, nextId = n\<rparr>"
  have unfold: "search_heap this q topK threshold h =
        and_then (array_map ?f docs h)
          (\<lambda>results h1. and_then (array_filter ?p results h1)
             (\<lambda>filtered h2. and_then (array_sort ?c filtered h2)
                (\<lambda>sorted h3. array_slice topK sorted h3)))"
    by (simp add: search_heap_def st)
  show ?thesis
  proof (cases "\<forall>d\<in>set ds. length (embedding d) = length q")
    case False
    then have bad: "\<exists>d\<in>set (documents ?s). length (embedding d) \<noteq> length q"
      by simp
    from split_list_first_prop[OF bad] obtain pre d post where
      ds: "ds = pre @ d # post"
      and d: "length (embedding d) \<noteq> length q"
      and pre: "\<forall>p\<in>set pre. \<not> length (embedding p) \<noteq> length q"
      by auto
    have "\<forall>p\<in>set pre. ?f p None None = Inr (?g p)"
      using pre by (simp add: cosineSimilarity_cosine)
    moreover have "?f d None None = Inl DimensionMismatch"
      using d by (simp add: cosineSimilarity_def)
    ultimately have "map_objects ?f xs (h @ []) = (Inl DimensionMismatch, h @ [] @ map ?g pre)"
      using recs unfolding ds by (intro map_objects_stops[where g = ?g])
    then have "fst (map_objects ?f xs (h @ [])) = Inl DimensionMismatch"
      by simp
    then have "fst (array_map ?f docs h) = Inl DimensionMismatch"
      by (simp add: array_map_def ar and_then_error)
    then have "fst (search_heap this q topK threshold h) = Inl DimensionMismatch"
      unfolding unfold by (rule and_then_error)
    then have "outcome results_at (search_heap this q topK threshold h) = Inl DimensionMismatch"
      by (rule outcome_error)
    then show ?thesis
      using search_mismatch[OF bad] by simp
  next
    case True
    then have dims: "\<forall>d\<in>set (documents ?s). length (embedding d) = length q"
      by simp
    let ?A = "[length h ..< length h + length ds]"
    let ?H1 = "h @ map ?g ds"
    let ?H2 = "?H1 @ [ArrayObject ?A]"
    let ?F = "filter (?p ?H2) ?A"
    let ?H3 = "?H2 @ [ArrayObject ?F]"
    let ?S = "js_sort (?c ?H3) ?F"
    let ?H5 = "?H2 @ [ArrayObject ?S, ArrayObject (slice_to ?S topK)]"
    let ?val = "\<lambda>a. with_score (ds ! (a - length h)) (cosine q (embedding (ds ! (a - length h))))"
    have ok: "\<forall>d\<in>set ds. ?f d None None = Inr (?g d)"
      using True by (simp add: cosineSimilarity_cosine)
    have "map_objects ?f xs h = (Inr ?A, ?H1)"
      using map_objects_ok[where f = ?f and g = ?g and ext = "[]", OF recs ok] by simp
    then have m: "array_map ?f docs h = (Inr (length ?H1), ?H2)"
      by (simp add: array_map_def ar and_then_def alloc_def)
    have l2: "lookup ?H2 (length ?H1) = Some (ArrayObject ?A)"
      by (rule lookup_fresh)
    have run: "search_heap this q topK threshold h = (Inr (Suc (length ?H2)), ?H5)"
      unfolding unfold m and_then_def[of "(Inr (length ?H1), ?H2)"]
      using pipeline_run[OF l2, of ?p ?c topK] by simp
    have cell: "lookup (?H1 @ ext) a = Some (?g (ds ! (a - length h)))" if "a \<in> set ?A" for a ext
    proof -
      from that have i: "a - length h < length (map ?g ds @ ext)" and a: "a = length h + (a - length h)"
        by auto
      have "lookup (h @ (map ?g ds @ ext)) (length h + (a - length h))
            = Some ((map ?g ds @ ext) ! (a - length h))"
        using i by (rule lookup_nth_append)
      then show ?thesis
        using that a by (simp add: nth_append)
    qed
    have sc: "score_at (?H1 @ ext) a = Some (score (?val a))" if "a \<in> set ?A" for a ext
      using cell[OF that, of ext] by (simp add: score_at_def with_score_def)
    have rs: "result_at (?H1 @ ext) a = Some (?val a)" if "a \<in> set ?A" for a ext
      using cell[OF that, of ext] by (simp add: result_at_def with_score_def)
    have F: "?F = filter (\<lambda>a. js_ge (score (?val a)) threshold) ?A"
      using sc[of _ "[ArrayObject ?A]"] by (intro filter_cong) auto
    have FA: "set ?F \<subseteq> set ?A"
      by auto
    have S: "?S = js_sort (\<lambda>a b. sub_double (score (?val b)) (score (?val a))) ?F"
    proof (rule js_sort_cong, intro ballI)
      fix x y assume "x \<in> set ?F" "y \<in> set ?F"
      then have "x \<in> set ?A" "y \<in> set ?A" using FA by auto
      from sc[OF this(1), of "[ArrayObject ?A, ArrayObject ?F]"]
           sc[OF this(2), of "[ArrayObject ?A, ArrayObject ?F]"]
      show "?c ?H3 x y = sub_double (score (?val y)) (score (?val x))"
        by simp
    qed
    have valA: "map ?val ?A = map (\<lambda>d. with_score d (cosine q (embedding d))) ds"
      by (intro nth_equalityI) simp_all
    have "map ?val ?S = js_sort (\<lambda>a b. sub_double (score b) (score a)) (map ?val ?F)"
      unfolding S by (rule js_sort_map)
    also have "map ?val ?F = filter (\<lambda>r. js_ge (score r) threshold) (map ?val ?A)"
      unfolding F by (simp add: filter_map comp_def)
    finally have valS: "map ?val ?S =
        js_sort (\<lambda>a b. sub_double (score b) (score a)) (filter (\<lambda>r. js_ge (score r) threshold) (map (\<lambda>d. with_score d (cosine q (embedding d))) ds))"
      unfolding valA .
    have SA: "set (slice_to ?S topK) \<subseteq> set ?A"
      using set_slice_to[of ?S topK] FA by (auto simp: set_js_sort)
    have "map (result_at ?H5) (slice_to ?S topK) = map (\<lambda>a. Some (?val a)) (slice_to ?S topK)"
    proof (intro map_cong refl)
      fix a assume "a \<in> set (slice_to ?S topK)"
      then have "a \<in> set ?A" using SA by blast
      from rs[OF this, of "[ArrayObject ?A, ArrayObject ?S, ArrayObject (slice_to ?S topK)]"]
      show "result_at ?H5 a = Some (?val a)" by simp
    qed
    then have "those (map (result_at ?H5) (slice_to ?S topK)) = Some (map ?val (slice_to ?S topK))"
      by (simp only: those_map_Some)
    moreover have "lookup ?H5 (Suc (length ?H2)) = Some (ArrayObject (slice_to ?S topK))"
      by (simp add: lookup_def nth_append)
    ultimately have "results_at ?H5 (Suc (length ?H2)) = Some (map ?val (slice_to ?S topK))"
      by (simp only: results_at_def option.case cell.case)
    then have "outcome results_at (search_heap this q topK threshold h)
               = Inr (slice_to (map ?val ?S) topK)"
      unfolding run by (simp add: outcome_def slice_to_map)
    also have "\<dots> = search ?s q topK threshold"
      unfolding valS using search_run[OF dims, of topK threshold]
      by simp
    finally show ?thesis .
  qed
qed

lemma searchByDistance_heap_refines:
  assumes view: "store_view h this = Some (map (\<lambda>d. (d, None, None)) ds, n)"
  shows "outcome distances_at (searchByDistance_heap this q topK maxDistance h)
         = searchByDistance \<lparr>documents = ds, nextId = n\<rparr> q topK maxDistance"
proof -
  from view obtain docs xs where
    st: "lookup h this = Some (StoreObject docs n)"
    and ar: "lookup h docs = Some (ArrayObject xs)"
    and recs: "list_all2 (\<lambda>a d. record_at h a = Some (d, None, None)) xs ds"
    by (rule view_records)
  let ?f = "\<lambda>doc sc di. case euclideanDistance q (embedding doc) of
                                Inl e \<Rightarrow> Inl e
                              | Inr dst \<Rightarrow> Inr (RecordObject doc sc (Some dst))"
  let ?g = "\<lambda>d. RecordObject d None (Some (euclidean q (embedding d)))"
  let ?p = "\<lambda>h a. case distance_at h a of Some di \<Rightarrow> js_le di maxDistance | None \<Rightarrow> False"
  let ?c = "\<lambda>h a b. case (distance_at h a, distance_at h b) of
                                     (Some da, Some db) \<Rightarrow> sub_double da db
                                   | _ \<Rightarrow> NaN"
  let ?s = "\<lparr>documents = ds, nextId = n\<rparr>"
  have unfold: "searchByDistance_heap this q topK maxDistance h =
        and_then (array_map ?f docs h)
          (\<lambda>results h1. and_then (array_filter ?p results h1)
             (\<lambda>filtered h2. and_then (array_sort ?c filtered h2)
                (\<lambda>sorted h3. array_slice topK sorted h3)))"
    by (simp add: searchByDistance_heap_def st)
  show ?thesis
  proof (cases "\<forall>d\<in>set ds. length (embedding d) = length q")
    case False
    then have bad: "\<exists>d\<in>set (documents ?s). length (embedding d) \<noteq> length q"
      by simp
    from split_list_first_prop[OF bad] obtain pre d post where
      ds: "ds = pre @ d # post"
      and d: "length (embedding d) \<noteq> length q"
      and pre: "\<forall>p\<in>set pre. \<not> length (embedding p) \<noteq> length q"
      by auto
    have "\<forall>p\<in>set pre. ?f p None None = Inr (?g p)"
      using pre by (simp add: euclideanDistance_euclidean)
    moreover have "?f d None None = Inl DimensionMismatch"
      using d by (simp add: euclideanDistance_def)
    ultimately have "map_objects ?f xs (h @ []) = (Inl DimensionMismatch, h @ [] @ map ?g pre)"
      using recs unfolding ds by (intro map_objects_stops[where g = ?g])
    then have "fst (map_objects ?f xs (h @ [])) = Inl DimensionMismatch"
      by simp
    then have "fst (array_map ?f docs h) = Inl DimensionMismatch"
      by (simp add: array_map_def ar and_then_error)
    then have "fst (searchByDistance_heap this q topK maxDistance h) = Inl DimensionMismatch"
      unfolding unfold by (rule and_then_error)
    then have "outcome distances_at (searchByDistance_heap this q topK maxDistance h) = Inl DimensionMismatch"
      by (rule outcome_error)
    then show ?thesis
      using searchByDistance_mismatch[OF bad] by simp
  next
    case True
    then have dims: "\<forall>d\<in>set (documents ?s). length (embedding d) = length q"
      by simp
    let ?A = "[length h ..< length h + length ds]"
    let ?H1 = "h @ map ?g ds"
    let ?H2 = "?H1 @ [ArrayObject ?A]"
    let ?F = "filter (?p ?H2) ?A"
    let ?H3 = "?H2 @ [ArrayObject ?F]"
    let ?S = "js_sort (?c ?H3) ?F"
    let ?H5 = "?H2 @ [ArrayObject ?S, ArrayObject (slice_to ?S topK)]"
    let ?val = "\<lambda>a. with_distance (ds ! (a - length h)) (euclidean q (embedding (ds ! (a - length h))))"
    have ok: "\<forall>d\<in>set ds. ?f d None None = Inr (?g d)"
      using True by (simp add: euclideanDistance_euclidean)
    have "map_objects ?f xs h = (Inr ?A, ?H1)"
      using map_objects_ok[where f = ?f and g = ?g and ext = "[]", OF recs ok] by simp
    then have m: "array_map ?f docs h = (Inr (length ?H1), ?H2)"
      by (simp add: array_map_def ar and_then_def alloc_def)
    have l2: "lookup ?H2 (length ?H1) = Some (ArrayObject ?A)"
      by (rule lookup_fresh)
    have run: "searchByDistance_heap this q topK maxDistance h = (Inr (Suc (length ?H2)), ?H5)"
      unfolding unfold m and_then_def[of "(Inr (length ?H1), ?H2)"]
      using pipeline_run[OF l2, of ?p ?c topK] by simp
    have cell: "lookup (?H1 @ ext) a = Some (?g (ds ! (a - length h)))" if "a \<in> set ?A" for a ext
    proof -
      from that have i: "a - length h < length (map ?g ds @ ext)" and a: "a = length h + (a - length h)"
        by auto
      have "lookup (h @ (map ?g ds @ ext)) (length h + (a - length h))
            = Some ((map ?g ds @ ext) ! (a - length h))"
        using i by (rule lookup_nth_append)
      then show ?thesis
        using that a by (simp add: nth_append)
    qed
    have sc: "distance_at (?H1 @ ext) a = Some (distance (?val a))" if "a \<in> set ?A" for a ext
      using cell[OF that, of ext] by (simp add: distance_at_def with_distance_def)
    have rs: "distance_result_at (?H1 @ ext) a = Some (?val a)" if "a \<in> set ?A" for a ext
      using cell[OF that, of ext] by (simp add: distance_result_at_def with_distance_def)
    have F: "?F = filter (\<lambda>a. js_le (distance (?val a)) maxDistance) ?A"
      using sc[of _ "[ArrayObject ?A]"] by (intro filter_cong) auto
    have FA: "set ?F \<subseteq> set ?A"
      by auto
    have S: "?S = js_sort (\<lambda>a b. sub_double (distance (?val a)) (distance (?val b))) ?F"
    proof (rule js_sort_cong, intro ballI)
      fix x y assume "x \<in> set ?F" "y \<in> set ?F"
      then have "x \<in> set ?A" "y \<in> set ?A" using FA by auto
      from sc[OF this(1), of "[ArrayObject ?A, ArrayObject ?F]"]
           sc[OF this(2), of "[ArrayObject ?A, ArrayObject ?F]"]
      show "?c ?H3 x y = sub_double (distance (?val x)) (distance (?val y))"
        by simp
    qed
    have valA: "map ?val ?A = map (\<lambda>d. with_distance d (euclidean q (embedding d))) ds"
      by (intro nth_equalityI) simp_all
    have "map ?val ?S = js_sort (\<lambda>a b. sub_double (distance a) (distance b)) (map ?val ?F)"
      unfolding S by (rule js_sort_map)
    also have "map ?val ?F = filter (\<lambda>r. js_le (distance r) maxDistance) (map ?val ?A)"
      unfolding F by (simp add: filter_map comp_def)
    finally have valS: "map ?val ?S =
        js_sort (\<lambda>a b. sub_double (distance a) (distance b)) (filter (\<lambda>r. js_le (distance r) maxDistance) (map (\<lambda>d. with_distance d (euclidean q (embedding d))) ds))"
      unfolding valA .
    have SA: "set (slice_to ?S topK) \<subseteq> set ?A"
      using set_slice_to[of ?S topK] FA by (auto simp: set_js_sort)
    have "map (distance_result_at ?H5) (slice_to ?S topK) = map (\<lambda>a. Some (?val a)) (slice_to ?S topK)"
    proof (intro map_cong refl)
      fix a assume "a \<in> set (slice_to ?S topK)"
      then have "a \<in> set ?A" using SA by blast
      from rs[OF this, of "[ArrayObject ?A, ArrayObject ?S, ArrayObject (slice_to ?S topK)]"]
      show "distance_result_at ?H5 a = Some (?val a)" by simp
    qed
    then have "those (map (distance_result_at ?H5) (slice_to ?S topK)) = Some (map ?val (slice_to ?S topK))"
      by (simp only: those_map_Some)
    moreover have "lookup ?H5 (Suc (length ?H2)) = Some (ArrayObject (slice_to ?S topK))"
      by (simp add: lookup_def nth_append)
    ultimately have "distances_at ?H5 (Suc (length ?H2)) = Some (map ?val (slice_to ?S topK))"
      by (simp only: distances_at_def option.case cell.case)
    then have "outcome distances_at (searchByDistance_heap this q topK maxDistance h)
               = Inr (slice_to (map ?val ?S) topK)"
      unfolding run by (simp add: outcome_def slice_to_map)
    also have "\<dots> = searchByDistance ?s q topK maxDistance"
      unfolding valS using searchByDistance_run[OF dims, of topK maxDistance]
      by simp
    finally show ?thesis .
  qed
qed

lemma search_heap_stops:
  assumes view: "store_view h this = Some (map (\<lambda>d. (d, None, None)) (pre @ d # post), n)"
    and pre: "\<forall>p\<in>set pre. length (embedding p) = length q"
    and d: "length (embedding d) \<noteq> length q"
  shows "search_heap this q topK threshold h =
           (Inl DimensionMismatch,
            h @ map (\<lambda>p. RecordObject p (Some (cosine q (embedding p))) None) pre)"
proof -
  from view obtain docs xs where
    st: "lookup h this = Some (StoreObject docs n)"
    and ar: "lookup h docs = Some (ArrayObject xs)"
    and recs: "list_all2 (\<lambda>a d. record_at h a = Some (d, None, None)) xs (pre @ d # post)"
    by (rule view_records)
  let ?f = "\<lambda>doc sc di. case cosineSimilarity q (embedding doc) of
                                Inl e \<Rightarrow> Inl e
                              | Inr similarity \<Rightarrow> Inr (RecordObject doc (Some similarity) di)"
  let ?g = "\<lambda>p. RecordObject p (Some (cosine q (embedding p))) None"
  have ok: "\<forall>p\<in>set pre. ?f p None None = Inr (?g p)"
    using pre by (simp add: cosineSimilarity_cosine)
  have bad: "?f d None None = Inl DimensionMismatch"
    using d by (simp add: cosineSimilarity_def)
  have "map_objects ?f xs h = (Inl DimensionMismatch, h @ map ?g pre)"
    using map_objects_stops[where f = ?f and g = ?g and ext = "[]", OF recs ok bad] by simp
  then have "array_map ?f docs h = (Inl DimensionMismatch, h @ map ?g pre)"
    by (simp add: array_map_def ar and_then_Inl)
  then show ?thesis
    by (simp add: search_heap_def st and_then_Inl)
qed

section \<open>Vectors of different lengths\<close>

text \<open>
  C3. On vectors of different lengths both metrics fail with \<open>DimensionMismatch\<close>, and
  on vectors of the same length they return the cosine and the distance. A search over a
  store in which some record's embedding has another length than the query fails with
  that error. It fails at the first such record in the order of the store: on the heap,
  the copies of the records before that one have been made, in order, and nothing else.
\<close>

theorem dimension_mismatch:
  "cosineSimilarity a b =
     (if length a = length b then Inr (cosine a b) else Inl DimensionMismatch)
   \<and> euclideanDistance a b =
     (if length a = length b then Inr (euclidean a b) else Inl DimensionMismatch)
   \<and> ((\<exists>d\<in>set (documents s). length (embedding d) \<noteq> length q)
        \<longrightarrow> search s q topK threshold = Inl DimensionMismatch)
   \<and> (store_view h this = Some (map (\<lambda>d. (d, None, None)) (pre @ d # post), n)
        \<and> (\<forall>p\<in>set pre. length (embedding p) = length q)
        \<and> length (embedding d) \<noteq> length q
        \<longrightarrow> search_heap this q topK threshold h =
              (Inl DimensionMismatch,
               h @ map (\<lambda>p. RecordObject p (Some (cosine q (embedding p))) None) pre))"
proof (intro conjI impI)
  show "cosineSimilarity a b =
     (if length a = length b then Inr (cosine a b) else Inl DimensionMismatch)"
    by (simp add: cosineSimilarity_cosine) (simp add: cosineSimilarity_def)
  show "euclideanDistance a b =
     (if length a = length b then Inr (euclidean a b) else Inl DimensionMismatch)"
    by (simp add: euclideanDistance_euclidean) (simp add: euclideanDistance_def)
  show "search s q topK threshold = Inl DimensionMismatch"
    if "\<exists>d\<in>set (documents s). length (embedding d) \<noteq> length q"
    using that by (rule search_mismatch)
  show "search_heap this q topK threshold h =
              (Inl DimensionMismatch,
               h @ map (\<lambda>p. RecordObject p (Some (cosine q (embedding p))) None) pre)"
    if "store_view h this = Some (map (\<lambda>d. (d, None, None)) (pre @ d # post), n)
        \<and> (\<forall>p\<in>set pre. length (embedding p) = length q)
        \<and> length (embedding d) \<noteq> length q"
    using that search_heap_stops[of h this pre d post n q topK threshold] by blast
qed

theorem dimension_mismatch_witness:
  "(\<exists>d\<in>set (documents mixed_store). length (embedding d) \<noteq> length [1, 0::real])
   \<and> search mixed_store [1, 0] 5 (Num 0) = Inl DimensionMismatch
   \<and> store_view mixed_heap 0 =
       Some (map (\<lambda>d. (d, None, None))
               ([documents mixed_store ! 0] @ documents mixed_store ! 1 # [documents mixed_store ! 2]), 4)
   \<and> length (embedding (documents mixed_store ! 0)) = length [1, 0::real]
   \<and> length (embedding (documents mixed_store ! 1)) \<noteq> length [1, 0::real]
   \<and> search_heap 0 [1, 0] 5 (Num 0) mixed_heap =
       (Inl DimensionMismatch,
        mixed_heap @ [RecordObject (documents mixed_store ! 0) (Some (Num 1)) None])"
proof -
  have h1: "\<exists>d\<in>set (documents mixed_store). length (embedding d) \<noteq> length [1, 0::real]"
    by (simp add: mixed_store_def)
  have h2: "store_view mixed_heap 0 =
       Some (map (\<lambda>d. (d, None, None))
               ([documents mixed_store ! 0] @ documents mixed_store ! 1 # [documents mixed_store ! 2]), 4)"
    by (simp add: store_view_def record_at_def lookup_def mixed_heap_def mixed_store_def)
  have h3: "length (embedding (documents mixed_store ! 0)) = length [1, 0::real]"
    by (simp add: mixed_store_def)
  have h4: "length (embedding (documents mixed_store ! 1)) \<noteq> length [1, 0::real]"
    by (simp add: mixed_store_def)
  have c: "cosine [1, 0] (embedding (documents mixed_store ! 0)) = Num 1"
    by (simp add: mixed_store_def cosine_def magnitude_def dot_product_def add_double_def
          mul_double_def sqrt_double_def div_double_def round_double_zero round_double_numerals)
  note t = dimension_mismatch[of _ _ mixed_store "[1, 0]" 5 "Num 0" mixed_heap 0
      "[documents mixed_store ! 0]" "documents mixed_store ! 1" "[documents mixed_store ! 2]" 4]
  have a: "search mixed_store [1, 0] 5 (Num 0) = Inl DimensionMismatch"
    using t h1 by blast
  have "search_heap 0 [1, 0] 5 (Num 0) mixed_heap =
       (Inl DimensionMismatch,
        mixed_heap @ map (\<lambda>p. RecordObject p (Some (cosine [1, 0] (embedding p))) None)
                       [documents mixed_store ! 0])"
    using t h2 h3 h4 by simp
  then have b: "search_heap 0 [1, 0] 5 (Num 0) mixed_heap =
       (Inl DimensionMismatch,
        mixed_heap @ [RecordObject (documents mixed_store ! 0) (Some (Num 1)) None])"
    using c by simp
  show ?thesis
    using h1 h2 h3 h4 a b by blast
qed

end
